theory Spec2Isabelle
  imports Complex_Main "HOL-Library.Multiset"
begin


section \<open>Data model (src/types/index.ts)\<close>

text \<open>
  An optional field is an \<open>option\<close>; \<open>undefined\<close> is \<open>None\<close>.
\<close>

subsection \<open>Numbers\<close>

text \<open>
  A computed JavaScript number is a real number or \<open>NaN\<close>. The four arithmetic operations
  and \<open>Math.sqrt\<close> are exact on real numbers (their rounding, the exponent range and the
  infinities are not modelled) and give \<open>NaN\<close> on a \<open>NaN\<close> operand; the square root of a
  negative number is \<open>NaN\<close>; every comparison with \<open>NaN\<close> is false. The divisors in the
  code are non-zero constants. The numbers a request carries (coordinates, position
  indices) are real numbers.
\<close>

datatype number = Num real | NaN

definition num_add :: "number \<Rightarrow> number \<Rightarrow> number" where
  "num_add x y = (case (x, y) of (Num a, Num b) \<Rightarrow> Num (a + b) | _ \<Rightarrow> NaN)"

definition num_sub :: "number \<Rightarrow> number \<Rightarrow> number" where
  "num_sub x y = (case (x, y) of (Num a, Num b) \<Rightarrow> Num (a - b) | _ \<Rightarrow> NaN)"

definition num_mul :: "number \<Rightarrow> number \<Rightarrow> number" where
  "num_mul x y = (case (x, y) of (Num a, Num b) \<Rightarrow> Num (a * b) | _ \<Rightarrow> NaN)"

definition num_div :: "number \<Rightarrow> number \<Rightarrow> number" where
  "num_div x y = (case (x, y) of (Num a, Num b) \<Rightarrow> (if b = 0 then NaN else Num (a / b)) | _ \<Rightarrow> NaN)"

definition num_lt :: "number \<Rightarrow> number \<Rightarrow> bool" where
  "num_lt x y = (case (x, y) of (Num a, Num b) \<Rightarrow> a < b | _ \<Rightarrow> False)"

definition num_gt :: "number \<Rightarrow> number \<Rightarrow> bool" where
  "num_gt x y = num_lt y x"

definition num_le :: "number \<Rightarrow> number \<Rightarrow> bool" where
  "num_le x y = (case (x, y) of (Num a, Num b) \<Rightarrow> a \<le> b | _ \<Rightarrow> False)"

definition Math_sqrt :: "number \<Rightarrow> number" where
  "Math_sqrt x = (case x of Num a \<Rightarrow> (if a < 0 then NaN else Num (sqrt a)) | NaN \<Rightarrow> NaN)"

text \<open>
  \<open>Math.sin\<close>, \<open>Math.cos\<close> and \<open>Math.atan2\<close> return implementation-approximated values: the
  library is a parameter of the model. A value of \<open>Math.sin\<close> or \<open>Math.cos\<close> that is off by
  one unit in the last place can push the haversine term above 1.
\<close>

record MathLib =
  sin_of :: "real \<Rightarrow> real"
  cos_of :: "real \<Rightarrow> real"
  atan2_of :: "real \<Rightarrow> real \<Rightarrow> real"

definition Math_sin :: "MathLib \<Rightarrow> number \<Rightarrow> number" where
  "Math_sin M x = (case x of Num a \<Rightarrow> Num (sin_of M a) | NaN \<Rightarrow> NaN)"

definition Math_cos :: "MathLib \<Rightarrow> number \<Rightarrow> number" where
  "Math_cos M x = (case x of Num a \<Rightarrow> Num (cos_of M a) | NaN \<Rightarrow> NaN)"

definition Math_atan2 :: "MathLib \<Rightarrow> number \<Rightarrow> number \<Rightarrow> number" where
  "Math_atan2 M y x = (case (y, x) of (Num a, Num b) \<Rightarrow> Num (atan2_of M a b) | _ \<Rightarrow> NaN)"

subsection \<open>Records\<close>

datatype VehicleType = car | truck

datatype OptimizationMethod = shortest_distance | fastest_time | balanced

datatype LockPosition = lock_start | lock_end | lock_fixed

record Coordinates =
  latitude :: real
  longitude :: real

record Location =
  loc_id :: string
  address :: string
  coordinates :: "Coordinates option"
  isLocked :: "bool option"
  lockPosition :: "LockPosition option"
  loc_order :: "real option"

text \<open>\<open>RouteGeometry\<close>: the coordinate array of a GeoJSON LineString, or \<open>null\<close>.\<close>

type_synonym RouteGeometry = "real list list option"

record RouteSegment =
  seg_from :: Location
  seg_to :: Location
  distance :: number
  duration :: number
  instructions :: "string list"
  polyline :: RouteGeometry

record Route =
  route_id :: string
  locations :: "Location list"
  totalDistance :: number
  totalDuration :: number
  vehicleType :: VehicleType
  isLoop :: bool
  segments :: "RouteSegment list"
  optimizationMethod :: OptimizationMethod

record RouteOptimizationRequest =
  req_locations :: "Location list"
  req_vehicleType :: VehicleType
  req_isLoop :: bool
  req_optimizationMethod :: OptimizationMethod

record Metadata =
  calculationTime :: int
  algorithm :: string
  apiProvider :: string

record RouteOptimizationResponse =
  route :: Route
  metadata :: Metadata

text \<open>Errors thrown by the service, as values.\<close>

datatype error =
    MissingCoordinates "string list"
  | TooFewLocations
  | SegmentMissingCoordinates
  | RouteFailed error

section \<open>JavaScript \<open>Map\<close> and \<open>Set\<close>\<close>

text \<open>
  A \<open>Map\<close> keeps its keys in insertion order: an association list with one pair per key.
  \<open>set\<close> on a present key keeps the key's position.
\<close>

definition Map_get :: "'k \<Rightarrow> ('k \<times> 'v) list \<Rightarrow> 'v option" where
  "Map_get k m = map_of m k"

fun Map_set :: "'k \<Rightarrow> 'v \<Rightarrow> ('k \<times> 'v) list \<Rightarrow> ('k \<times> 'v) list" where
  "Map_set k v [] = [(k, v)]"
| "Map_set k v (p # m) = (if fst p = k then (k, v) # m else p # Map_set k v m)"

definition Map_delete :: "'k \<Rightarrow> ('k \<times> 'v) list \<Rightarrow> ('k \<times> 'v) list" where
  "Map_delete k m = filter (\<lambda>p. fst p \<noteq> k) m"

definition Set_add :: "'a \<Rightarrow> 'a list \<Rightarrow> 'a list" where
  "Set_add x xs = (if x \<in> set xs then xs else xs @ [x])"

section \<open>The outside world\<close>

text \<open>
  The routing providers, the clock and the random source are oracles indexed by a counter
  that the service state carries: the k-th interaction with the outside gets the k-th
  answer. A provider answer \<open>None\<close> stands for every failure of that tier (network error,
  non-success status, no route, malformed body); \<open>Some\<close> carries the fields the code reads
  from the body, with the step instructions already rendered and the ORS geometry already
  decoded. The environment also holds the mathematical library.
\<close>

record OsrmRoute =
  osrm_distance :: number
  osrm_duration :: number
  osrm_instructions :: "string list"
  osrm_geometry :: RouteGeometry

record OrsRoute =
  ors_distance :: number
  ors_duration :: number
  ors_instructions :: "string list"
  ors_geometry :: RouteGeometry

record Env =
  math :: MathLib
  openRouteServiceApiKey :: "string option"
  ors_fetch :: "nat \<Rightarrow> Coordinates \<Rightarrow> Coordinates \<Rightarrow> OrsRoute option"
  osrm_fetch :: "nat \<Rightarrow> Coordinates \<Rightarrow> Coordinates \<Rightarrow> OsrmRoute option"
  date_now :: "nat \<Rightarrow> int"
  random_suffix :: "nat \<Rightarrow> string"

record CacheEntry =
  entry_route :: Route
  timestamp :: int

text \<open>
  The state of the service: the two private fields of \<open>OpenStreetMapRoutingService\<close>, the
  module-level \<open>routeCache\<close> of cacheManager.ts, and the oracle counter.
\<close>

record ServiceState =
  segmentCache :: "(string \<times> RouteSegment) list"
  segmentCacheOrder :: "string list"
  routeCache :: "(string \<times> CacheEntry) list"
  tick :: nat

definition initialState :: ServiceState where
  "initialState = \<lparr>segmentCache = [], segmentCacheOrder = [], routeCache = [], tick = 0\<rparr>"

definition hasTruckRouting :: "Env \<Rightarrow> bool" where
  "hasTruckRouting env = (case openRouteServiceApiKey env of None \<Rightarrow> False | Some k \<Rightarrow> k \<noteq> [])"

section \<open>Number formatting\<close>

definition digit_char :: "nat \<Rightarrow> char" where
  "digit_char d = ''0123456789'' ! d"

function nat_to_string :: "nat \<Rightarrow> string" where
  "nat_to_string n = (if n < 10 then [digit_char n] else nat_to_string (n div 10) @ [digit_char (n mod 10)])"
  by pat_completeness auto
termination
  by (relation "measure (\<lambda>n. n)") auto

declare nat_to_string.simps [simp del]

text \<open>
  \<open>Number.prototype.toFixed(f)\<close> for a finite number below 1e21 in absolute value: the sign,
  then the integer n nearest to \<open>|x| * 10^f\<close> (the larger one on a tie), padded with zeros
  to at least \<open>f + 1\<close> digits, with a point before the last f digits.
\<close>

definition pad_zeros :: "nat \<Rightarrow> string \<Rightarrow> string" where
  "pad_zeros k m = replicate (k - length m) (CHR ''0'') @ m"

definition toFixed :: "nat \<Rightarrow> real \<Rightarrow> string" where
  "toFixed f x =
     (let n = nat \<lfloor>\<bar>x\<bar> * 10 ^ f + 1 / 2\<rfloor>;
          m = pad_zeros (f + 1) (nat_to_string n);
          k = length m;
          body = (if f = 0 then m else take (k - f) m @ ''.'' @ drop (k - f) m)
      in (if x < 0 then ''-'' @ body else body))"

definition number_toFixed :: "nat \<Rightarrow> number \<Rightarrow> string" where
  "number_toFixed f x = (case x of Num a \<Rightarrow> toFixed f a | NaN \<Rightarrow> ''NaN'')"

section \<open>Segment cache (routing service)\<close>

definition MAX_SEGMENT_CACHE_SIZE :: nat where
  "MAX_SEGMENT_CACHE_SIZE = 100"

definition vehicle_string :: "VehicleType \<Rightarrow> string" where
  "vehicle_string v = (case v of car \<Rightarrow> ''car'' | truck \<Rightarrow> ''truck'')"

definition generateSegmentKey :: "Location \<Rightarrow> Location \<Rightarrow> VehicleType \<Rightarrow> string" where
  "generateSegmentKey from to v = loc_id from @ ''-'' @ loc_id to @ ''-'' @ vehicle_string v"

text \<open>\<open>clearSegmentCache\<close> calls \<open>this.segmentCache.clear()\<close> and nothing else.\<close>

definition clearSegmentCache :: "ServiceState \<Rightarrow> ServiceState" where
  "clearSegmentCache s = s\<lparr>segmentCache := []\<rparr>"

text \<open>
  The eviction loop of \<open>cacheSegment\<close>: while the map is full and the order record is not
  empty, shift the oldest key off the record and, when that key is truthy (a non-empty
  string), delete it from the map.
\<close>

fun evict_oldest ::
  "(string \<times> RouteSegment) list \<Rightarrow> string list \<Rightarrow> (string \<times> RouteSegment) list \<times> string list" where
  "evict_oldest m [] = (m, [])"
| "evict_oldest m (oldestKey # rest) =
     (if length m \<ge> MAX_SEGMENT_CACHE_SIZE
      then evict_oldest (if oldestKey \<noteq> [] then Map_delete oldestKey m else m) rest
      else (m, oldestKey # rest))"

definition cacheSegment :: "string \<Rightarrow> RouteSegment \<Rightarrow> ServiceState \<Rightarrow> ServiceState" where
  "cacheSegment key segment s =
     (case evict_oldest (segmentCache s) (segmentCacheOrder s) of
        (m, ord) \<Rightarrow> s\<lparr>segmentCache := Map_set key segment m, segmentCacheOrder := ord @ [key]\<rparr>)"

section \<open>Geodesic distance\<close>

definition degToRad :: "number \<Rightarrow> number" where
  "degToRad deg = num_mul deg (num_div (Num pi) (Num 180))"

text \<open>The haversine term, the local \<open>a\<close> of \<open>calculateDistance\<close>.\<close>

definition haversine :: "MathLib \<Rightarrow> Coordinates \<Rightarrow> Coordinates \<Rightarrow> number" where
  "haversine M coord1 coord2 =
     (let dLat = degToRad (num_sub (Num (latitude coord2)) (Num (latitude coord1)));
          dLon = degToRad (num_sub (Num (longitude coord2)) (Num (longitude coord1)))
      in num_add
           (num_mul (Math_sin M (num_div dLat (Num 2))) (Math_sin M (num_div dLat (Num 2))))
           (num_mul
              (num_mul
                 (num_mul (Math_cos M (degToRad (Num (latitude coord1))))
                          (Math_cos M (degToRad (Num (latitude coord2)))))
                 (Math_sin M (num_div dLon (Num 2))))
              (Math_sin M (num_div dLon (Num 2)))))"

definition calculateDistance :: "MathLib \<Rightarrow> Coordinates \<Rightarrow> Coordinates \<Rightarrow> number" where
  "calculateDistance M coord1 coord2 =
     (let R = Num 6371;
          a = haversine M coord1 coord2;
          c = num_mul (Num 2) (Math_atan2 M (Math_sqrt a) (Math_sqrt (num_sub (Num 1) a)))
      in num_mul R c)"

text \<open>
  The mathematical library without approximation error: the real sine and cosine, and
  \<open>Math.atan2(y, x)\<close> as the angle of the point \<open>(x, y)\<close>.
\<close>

definition atan2 :: "real \<Rightarrow> real \<Rightarrow> real" where
  "atan2 y x =
     (if x > 0 then arctan (y / x)
      else if x < 0 then (if y \<ge> 0 then arctan (y / x) + pi else arctan (y / x) - pi)
      else if y > 0 then pi / 2
      else if y < 0 then - (pi / 2)
      else 0)"

definition exactMath :: MathLib where
  "exactMath = \<lparr>sin_of = sin, cos_of = cos, atan2_of = atan2\<rparr>"

section \<open>Segment resolver\<close>

text \<open>Every read of an oracle advances the counter.\<close>

definition advance :: "ServiceState \<Rightarrow> ServiceState" where
  "advance s = s\<lparr>tick := Suc (tick s)\<rparr>"

text \<open>
  \<open>calculateSegmentWithORS\<close>: \<open>None\<close> is a thrown error, which the caller catches to fall
  through to OSRM.
\<close>

definition calculateSegmentWithORS ::
  "Env \<Rightarrow> Location \<Rightarrow> Location \<Rightarrow> string \<Rightarrow> ServiceState \<Rightarrow> RouteSegment option \<times> ServiceState" where
  "calculateSegmentWithORS env from to cacheKey s =
     (case (coordinates from, coordinates to) of
        (Some cf, Some ct) \<Rightarrow>
          (case ors_fetch env (tick s) cf ct of
             None \<Rightarrow> (None, advance s)
           | Some r \<Rightarrow>
               (let segment = \<lparr>seg_from = from, seg_to = to,
                                distance = ors_distance r,
                                duration = num_div (ors_duration r) (Num 60),
                                instructions = ors_instructions r,
                                polyline = ors_geometry r\<rparr>
                in (Some segment, cacheSegment cacheKey segment (advance s))))
      | _ \<Rightarrow> (None, s))"

definition fallbackSegment ::
  "MathLib \<Rightarrow> Location \<Rightarrow> Location \<Rightarrow> Coordinates \<Rightarrow> Coordinates \<Rightarrow> VehicleType \<Rightarrow> RouteSegment" where
  "fallbackSegment M from to cf ct v =
     (let dkm = calculateDistance M cf ct;
          estimatedSpeed = (if v = truck then Num 50 else Num 70);
          dur = num_mul (num_div dkm estimatedSpeed) (Num 60)
      in \<lparr>seg_from = from, seg_to = to, distance = dkm, duration = dur,
          instructions = [''Parcourir '' @ number_toFixed 1 dkm @ ''km vers '' @ address to],
          polyline = None\<rparr>)"

definition osrmSegment :: "Location \<Rightarrow> Location \<Rightarrow> VehicleType \<Rightarrow> OsrmRoute \<Rightarrow> RouteSegment" where
  "osrmSegment from to v r =
     (let dist0 = num_div (osrm_distance r) (Num 1000);
          dur0 = num_div (osrm_duration r) (Num 60);
          dkm = (if v = truck then num_mul dist0 (Num 1.1) else dist0);
          dur = (if v = truck then num_mul dur0 (Num 1.4) else dur0)
      in \<lparr>seg_from = from, seg_to = to, distance = dkm, duration = dur,
          instructions = osrm_instructions r, polyline = osrm_geometry r\<rparr>)"

definition calculateSegment ::
  "Env \<Rightarrow> Location \<Rightarrow> Location \<Rightarrow> VehicleType \<Rightarrow> ServiceState \<Rightarrow> (error + RouteSegment) \<times> ServiceState" where
  "calculateSegment env from to v s =
     (case (coordinates from, coordinates to) of
        (Some cf, Some ct) \<Rightarrow>
          (let cacheKey = generateSegmentKey from to v in
           case Map_get cacheKey (segmentCache s) of
             Some cachedSegment \<Rightarrow> (Inr cachedSegment, s)
           | None \<Rightarrow>
               (case (if v = truck \<and> hasTruckRouting env
                      then calculateSegmentWithORS env from to cacheKey s
                      else (None, s)) of
                  (Some segment, s1) \<Rightarrow> (Inr segment, s1)
                | (None, s1) \<Rightarrow>
                    (case osrm_fetch env (tick s1) cf ct of
                       Some r \<Rightarrow>
                         (let segment = osrmSegment from to v r
                          in (Inr segment, cacheSegment cacheKey segment (advance s1)))
                     | None \<Rightarrow>
                         (let segment = fallbackSegment (math env) from to cf ct v
                          in (Inr segment, cacheSegment cacheKey segment (advance s1))))))
      | _ \<Rightarrow> (Inl SegmentMissingCoordinates, s))"

section \<open>Runs of the segment resolver and the FIFO cache they should implement\<close>

text \<open>A sequence of \<open>calculateSegment\<close> calls, threading the state.\<close>

fun run_segments ::
  "Env \<Rightarrow> (Location \<times> Location \<times> VehicleType) list \<Rightarrow> ServiceState \<Rightarrow> ServiceState" where
  "run_segments env [] s = s"
| "run_segments env ((from, to, v) # calls) s =
     run_segments env calls (snd (calculateSegment env from to v s))"

text \<open>
  The segment cache as the specification words it, on keys alone: a queue of capacity C in
  insertion order. \<open>put\<close> drops the single oldest key when the queue is full, then appends;
  a \<open>get\<close> that hits changes nothing.
\<close>

definition fifo_put :: "nat \<Rightarrow> 'k \<Rightarrow> 'k list \<Rightarrow> 'k list" where
  "fifo_put C k q = (if length q \<ge> C then tl q else q) @ [k]"

fun fifo_run :: "(Location \<times> Location \<times> VehicleType) list \<Rightarrow> string list \<Rightarrow> string list" where
  "fifo_run [] q = q"
| "fifo_run ((from, to, v) # calls) q =
     fifo_run calls
       (if coordinates from = None \<or> coordinates to = None then q
        else if generateSegmentKey from to v \<in> set q then q
        else fifo_put 100 (generateSegmentKey from to v) q)"

section \<open>Route cache (src/utils/cacheManager.ts)\<close>

definition ROUTE_CACHE_DURATION :: int where
  "ROUTE_CACHE_DURATION = 30 * 60 * 1000"

definition method_string :: "OptimizationMethod \<Rightarrow> string" where
  "method_string m =
     (case m of shortest_distance \<Rightarrow> ''shortest_distance''
              | fastest_time \<Rightarrow> ''fastest_time''
              | balanced \<Rightarrow> ''balanced'')"

definition bool_string :: "bool \<Rightarrow> string" where
  "bool_string b = (if b then ''true'' else ''false'')"

text \<open>\<open>Array.prototype.join\<close>.\<close>

fun join :: "string \<Rightarrow> string list \<Rightarrow> string" where
  "join sep [] = []"
| "join sep [x] = x"
| "join sep (x # y # ys) = x @ sep @ join sep (y # ys)"

text \<open>
  One stop of the fingerprint. With optional chaining, a stop without coordinates renders
  as \<open>undefined_undefined\<close>.
\<close>

definition location_key :: "Location \<Rightarrow> string" where
  "location_key loc =
     (case coordinates loc of
        None \<Rightarrow> ''undefined'' @ ''_'' @ ''undefined''
      | Some c \<Rightarrow> toFixed 4 (latitude c) @ ''_'' @ toFixed 4 (longitude c))"

definition generateRouteKey :: "RouteOptimizationRequest \<Rightarrow> string" where
  "generateRouteKey request =
     (let locationIds = join ''-'' (map location_key (req_locations request))
      in locationIds @ ''_'' @ vehicle_string (req_vehicleType request) @ ''_'' @
         method_string (req_optimizationMethod request) @ ''_'' @ bool_string (req_isLoop request))"

text \<open>
  The cache functions on the map itself, with the readings of \<open>Date.now()\<close> as arguments.
\<close>

definition cleanRouteCache_at :: "int \<Rightarrow> (string \<times> CacheEntry) list \<Rightarrow> (string \<times> CacheEntry) list" where
  "cleanRouteCache_at now cache =
     filter (\<lambda>(key, value). \<not> (now - timestamp value > ROUTE_CACHE_DURATION)) cache"

definition setCachedRoute_at ::
  "int \<Rightarrow> RouteOptimizationRequest \<Rightarrow> Route \<Rightarrow> (string \<times> CacheEntry) list \<Rightarrow> (string \<times> CacheEntry) list" where
  "setCachedRoute_at now request r cache =
     (let key = generateRouteKey request;
          cache1 = Map_set key \<lparr>entry_route = r, timestamp = now\<rparr> cache
      in if length cache1 > 50
         then (let oldestKey = fst (hd (sort_key (\<lambda>e. timestamp (snd e)) cache1))
               in Map_delete oldestKey cache1)
         else cache1)"

definition lookupRoute_at :: "int \<Rightarrow> string \<Rightarrow> (string \<times> CacheEntry) list \<Rightarrow> Route option" where
  "lookupRoute_at now key cache =
     (case Map_get key cache of
        Some cached \<Rightarrow> (if now - timestamp cached < ROUTE_CACHE_DURATION then Some (entry_route cached) else None)
      | None \<Rightarrow> None)"

text \<open>
  The same functions on the service state, reading the clock oracle: \<open>cleanRouteCache\<close>
  reads it once, \<open>getCachedRoute\<close> once more when the key is present, \<open>setCachedRoute\<close> once.
\<close>

definition cleanRouteCache :: "Env \<Rightarrow> ServiceState \<Rightarrow> ServiceState" where
  "cleanRouteCache env s =
     advance (s\<lparr>routeCache := cleanRouteCache_at (date_now env (tick s)) (routeCache s)\<rparr>)"

definition getCachedRoute :: "Env \<Rightarrow> RouteOptimizationRequest \<Rightarrow> ServiceState \<Rightarrow> Route option \<times> ServiceState" where
  "getCachedRoute env request s =
     (let s1 = cleanRouteCache env s;
          key = generateRouteKey request
      in case Map_get key (routeCache s1) of
           None \<Rightarrow> (None, s1)
         | Some cached \<Rightarrow> (lookupRoute_at (date_now env (tick s1)) key (routeCache s1), advance s1))"

definition setCachedRoute :: "Env \<Rightarrow> RouteOptimizationRequest \<Rightarrow> Route \<Rightarrow> ServiceState \<Rightarrow> ServiceState" where
  "setCachedRoute env request r s =
     advance (s\<lparr>routeCache := setCachedRoute_at (date_now env (tick s)) request r (routeCache s)\<rparr>)"

section \<open>Location sequencer: scoring\<close>

definition estimateSpeed :: "number \<Rightarrow> number" where
  "estimateSpeed dkm = (if num_gt dkm (Num 10) then Num 65 else if num_gt dkm (Num 5) then Num 55 else Num 40)"

text \<open>
  The test \<open>score < bestScore\<close> of the search loops. The running \<open>bestScore\<close> is \<open>None\<close> while it
  is still \<open>Infinity\<close>, which every number is below and \<open>NaN\<close> is not.
\<close>

definition below_best :: "number \<Rightarrow> number option \<Rightarrow> bool" where
  "below_best score bestScore =
     (case bestScore of None \<Rightarrow> score \<noteq> NaN | Some b \<Rightarrow> num_lt score b)"

text \<open>The score of one candidate in the standard nearest-neighbour loop.\<close>

definition nn_score :: "OptimizationMethod \<Rightarrow> number \<Rightarrow> number" where
  "nn_score method dkm =
     (case method of
        shortest_distance \<Rightarrow> dkm
      | fastest_time \<Rightarrow>
          (let baseSpeed = Num 50;
               speedMultiplier = (if num_gt dkm (Num 10) then Num 1.3
                                  else if num_gt dkm (Num 5) then Num 1.1 else Num 0.8);
               adjustedSpeed = num_mul baseSpeed speedMultiplier
           in num_mul (num_div dkm adjustedSpeed) (Num 60))
      | balanced \<Rightarrow>
          (let estimatedSpeed = Num 55;
               time = num_mul (num_div dkm estimatedSpeed) (Num 60)
           in num_add (num_mul dkm (Num 0.4)) (num_mul time (Num 0.6))))"

text \<open>
  The \<open>for\<close> loop inside the \<open>while\<close> of \<open>nearestNeighborOptimization\<close>: the running pair is
  \<open>(nearest, bestScore)\<close>, \<open>None\<close> for \<open>(null, Infinity)\<close>.
\<close>

fun nn_scan ::
  "MathLib \<Rightarrow> OptimizationMethod \<Rightarrow> string list \<Rightarrow> Location \<Rightarrow> Location list
   \<Rightarrow> (Location \<times> number) option \<Rightarrow> (Location \<times> number) option" where
  "nn_scan M method visited current [] best = best"
| "nn_scan M method visited current (location # rest) best =
     (case (coordinates location, coordinates current) of
        (Some cl, Some cc) \<Rightarrow>
          (if loc_id location \<in> set visited then nn_scan M method visited current rest best
           else (let dkm = calculateDistance M cc cl;
                     score = nn_score method dkm
                 in if below_best score (map_option snd best)
                    then nn_scan M method visited current rest (Some (location, score))
                    else nn_scan M method visited current rest best))
      | _ \<Rightarrow> nn_scan M method visited current rest best)"

text \<open>
  The \<open>while (visited.size < locations.length)\<close> loop. \<open>visited\<close> is a \<open>Set\<close> of ids. When no
  candidate is found the state is unchanged and the loop goes round again: the result
  \<open>None\<close> of these functions is a loop that never ends.
\<close>

partial_function (option) nn_while ::
  "MathLib \<Rightarrow> Location list \<Rightarrow> OptimizationMethod \<Rightarrow> string list \<Rightarrow> Location list \<Rightarrow> Location
   \<Rightarrow> Location list option" where
  "nn_while M locs method visited result current =
     (if length visited < length locs
      then (case nn_scan M method visited current locs None of
              Some (nearest, bestScore) \<Rightarrow>
                nn_while M locs method (Set_add (loc_id nearest) visited) (result @ [nearest]) nearest
            | None \<Rightarrow> nn_while M locs method visited result current)
      else Some result)"

text \<open>
  The three loop-mode strategies share one loop shape: scan \<open>remaining\<close> by index for the
  lowest score (skipping stops the scoring has no coordinates for), append the winner,
  splice it out, continue from it. The scoring takes the current stop, \<open>remaining.length\<close>
  and the candidate; \<open>None\<close> is the \<open>continue\<close>.
\<close>

fun scan_remaining ::
  "(Location \<Rightarrow> number option) \<Rightarrow> Location list \<Rightarrow> nat \<Rightarrow> (Location \<times> number \<times> nat) option
   \<Rightarrow> (Location \<times> number \<times> nat) option" where
  "scan_remaining score [] i best = best"
| "scan_remaining score (location # rest) i best =
     (case score location of
        None \<Rightarrow> scan_remaining score rest (Suc i) best
      | Some totalScore \<Rightarrow>
          (if below_best totalScore (map_option (\<lambda>b. fst (snd b)) best)
           then scan_remaining score rest (Suc i) (Some (location, totalScore, i))
           else scan_remaining score rest (Suc i) best))"

definition splice_out :: "nat \<Rightarrow> 'a list \<Rightarrow> 'a list" where
  "splice_out i xs = take i xs @ drop (Suc i) xs"

partial_function (option) greedy_loop ::
  "(Location \<Rightarrow> nat \<Rightarrow> Location \<Rightarrow> number option) \<Rightarrow> Location list \<Rightarrow> Location list \<Rightarrow> Location
   \<Rightarrow> Location list option" where
  "greedy_loop score result remaining current =
     (if length remaining > 0
      then (case scan_remaining (score current (length remaining)) remaining 0 None of
              Some (nearest, bestScore, bestIndex) \<Rightarrow>
                greedy_loop score (result @ [nearest]) (splice_out bestIndex remaining) nearest
            | None \<Rightarrow> greedy_loop score result remaining current)
      else Some result)"

text \<open>Scoring of \<open>findNearestNeighborLoop\<close>: the last placement adds the way back to the start.\<close>

definition loop_edge_score :: "OptimizationMethod \<Rightarrow> number \<Rightarrow> number" where
  "loop_edge_score method dkm =
     (case method of
        shortest_distance \<Rightarrow> dkm
      | fastest_time \<Rightarrow> (let speed = estimateSpeed dkm in num_mul (num_div dkm speed) (Num 60))
      | balanced \<Rightarrow>
          (let speed = estimateSpeed dkm;
               time = num_mul (num_div dkm speed) (Num 60)
           in num_add (num_mul dkm (Num 0.4)) (num_mul time (Num 0.6))))"

definition nearest_loop_score ::
  "MathLib \<Rightarrow> OptimizationMethod \<Rightarrow> Location \<Rightarrow> Location \<Rightarrow> nat \<Rightarrow> Location \<Rightarrow> number option" where
  "nearest_loop_score M method start current n location =
     (case (coordinates location, coordinates current) of
        (Some cl, Some cc) \<Rightarrow>
          (let dkm = calculateDistance M cc cl
           in Some
             (if n = 1
              then (case coordinates start of
                      Some cs \<Rightarrow>
                        (let returnDistance = calculateDistance M cl cs
                         in case method of
                              shortest_distance \<Rightarrow> num_add dkm returnDistance
                            | fastest_time \<Rightarrow>
                                (let speed1 = estimateSpeed dkm;
                                     speed2 = estimateSpeed returnDistance
                                 in num_add (num_mul (num_div dkm speed1) (Num 60))
                                            (num_mul (num_div returnDistance speed2) (Num 60)))
                            | balanced \<Rightarrow>
                                (let speed1 = estimateSpeed dkm;
                                     speed2 = estimateSpeed returnDistance;
                                     time1 = num_mul (num_div dkm speed1) (Num 60);
                                     time2 = num_mul (num_div returnDistance speed2) (Num 60)
                                 in num_add
                                      (num_add (num_mul dkm (Num 0.4)) (num_mul time1 (Num 0.6)))
                                      (num_add (num_mul returnDistance (Num 0.4)) (num_mul time2 (Num 0.6)))))
                    | None \<Rightarrow> dkm)
              else loop_edge_score method dkm))
      | _ \<Rightarrow> None)"

definition findNearestNeighborLoop ::
  "MathLib \<Rightarrow> Location \<Rightarrow> Location list \<Rightarrow> OptimizationMethod \<Rightarrow> Location list option" where
  "findNearestNeighborLoop M start others method =
     greedy_loop (nearest_loop_score M method start) [start] others start"

text \<open>
  Scoring shared by \<open>findFarthestFirstLoop\<close> and \<open>optimizeFromSecondLocation\<close>: the distance,
  plus the way back to the start for the last placement.
\<close>

definition return_score :: "MathLib \<Rightarrow> Location \<Rightarrow> Location \<Rightarrow> nat \<Rightarrow> Location \<Rightarrow> number option" where
  "return_score M start current n location =
     (case (coordinates location, coordinates current) of
        (Some cl, Some cc) \<Rightarrow>
          (let dkm = calculateDistance M cc cl
           in Some (case coordinates start of
                      Some cs \<Rightarrow> (if n = 1 then num_add dkm (calculateDistance M cl cs) else dkm)
                    | None \<Rightarrow> dkm))
      | _ \<Rightarrow> None)"

text \<open>The first loop of \<open>findFarthestFirstLoop\<close>: the running pair is \<open>(farthest, maxDistance)\<close>.\<close>

fun farthest_scan ::
  "MathLib \<Rightarrow> Location \<Rightarrow> Location list \<Rightarrow> Location option \<times> number \<Rightarrow> Location option \<times> number" where
  "farthest_scan M start [] best = best"
| "farthest_scan M start (location # rest) (farthest, maxDistance) =
     (case (coordinates location, coordinates start) of
        (Some cl, Some cs) \<Rightarrow>
          (let dkm = calculateDistance M cs cl
           in if num_gt dkm maxDistance then farthest_scan M start rest (Some location, dkm)
              else farthest_scan M start rest (farthest, maxDistance))
      | _ \<Rightarrow> farthest_scan M start rest (farthest, maxDistance))"

definition findFarthestFirstLoop :: "MathLib \<Rightarrow> Location \<Rightarrow> Location list \<Rightarrow> Location list option" where
  "findFarthestFirstLoop M start others =
     (case fst (farthest_scan M start others (None, Num 0)) of
        None \<Rightarrow> Some (start # others)
      | Some farthest \<Rightarrow>
          (let remaining = filter (\<lambda>loc. loc_id loc \<noteq> loc_id farthest) others
           in greedy_loop (return_score M start) [start, farthest] remaining farthest))"

definition optimizeFromSecondLocation :: "MathLib \<Rightarrow> Location list \<Rightarrow> Location list option" where
  "optimizeFromSecondLocation M ord =
     (if length ord \<le> 2 then Some ord
      else (let fixed = take 2 ord;
                toOptimize = drop 2 ord
            in greedy_loop (return_score M (ord ! 0)) fixed toOptimize (fixed ! 1)))"

definition calculateCompleteLoopScore :: "MathLib \<Rightarrow> Location list \<Rightarrow> OptimizationMethod \<Rightarrow> number" where
  "calculateCompleteLoopScore M locs method =
     foldl (\<lambda>totalScore i.
        (let from = locs ! i;
             to = (if i = length locs - 1 then locs ! 0 else locs ! (i + 1))
         in case (coordinates from, coordinates to) of
              (Some cf, Some ct) \<Rightarrow> num_add totalScore (loop_edge_score method (calculateDistance M cf ct))
            | _ \<Rightarrow> totalScore))
       (Num 0) [0..<length locs]"

text \<open>
  One comparison of \<open>loopAwareOptimization\<close> and \<open>advancedOptimization\<close>: the candidate
  replaces the best when its score is strictly below \<open>bestScore\<close>.
\<close>

definition keep_better ::
  "Location list \<times> number option \<Rightarrow> Location list \<Rightarrow> number \<Rightarrow> Location list \<times> number option" where
  "keep_better best candidate score =
     (if below_best score (snd best) then (candidate, Some score) else best)"

text \<open>The third approach: for the first three other stops, force the stop into second place.\<close>

fun try_second ::
  "MathLib \<Rightarrow> Location \<Rightarrow> Location list \<Rightarrow> OptimizationMethod \<Rightarrow> nat list
   \<Rightarrow> Location list \<times> number option \<Rightarrow> (Location list \<times> number option) option" where
  "try_second M startLocation otherLocations method [] best = Some best"
| "try_second M startLocation otherLocations method (i # rest) best =
     (let testOrder = [startLocation, otherLocations ! i] @ splice_out i otherLocations
      in case optimizeFromSecondLocation M testOrder of
           None \<Rightarrow> None
         | Some reorderedTest \<Rightarrow>
             (let testScore = calculateCompleteLoopScore M reorderedTest method
              in try_second M startLocation otherLocations method rest
                   (keep_better best reorderedTest testScore)))"

text \<open>
  \<open>loopAwareOptimization\<close> is private and only called with at least three stops; on the
  empty list the source would throw, which is \<open>None\<close> here as well (no list is returned).
\<close>

definition loopAwareOptimization ::
  "MathLib \<Rightarrow> Location list \<Rightarrow> OptimizationMethod \<Rightarrow> Location list option" where
  "loopAwareOptimization M locs method =
     (case locs of
        [] \<Rightarrow> None
      | startLocation # otherLocations \<Rightarrow>
          (case findNearestNeighborLoop M startLocation otherLocations method of
             None \<Rightarrow> None
           | Some nearestFirst \<Rightarrow>
               (let best1 = keep_better (locs, None) nearestFirst
                              (calculateCompleteLoopScore M nearestFirst method)
                in case findFarthestFirstLoop M startLocation otherLocations of
                     None \<Rightarrow> None
                   | Some farthestFirst \<Rightarrow>
                       (let best2 = keep_better best1 farthestFirst
                                      (calculateCompleteLoopScore M farthestFirst method)
                        in map_option fst
                             (try_second M startLocation otherLocations method
                                [0..<min (length otherLocations) 3] best2)))))"

definition nearestNeighborOptimization ::
  "MathLib \<Rightarrow> Location list \<Rightarrow> OptimizationMethod \<Rightarrow> bool \<Rightarrow> Location list option" where
  "nearestNeighborOptimization M locs method loop =
     (if length locs \<le> 1 then Some locs
      else if loop \<and> length locs \<ge> 3 then loopAwareOptimization M locs method
      else (let current = locs ! 0
            in nn_while M locs method [loc_id current] [current] current))"

section \<open>Location sequencer: bounded search\<close>

fun factorial :: "nat \<Rightarrow> nat" where
  "factorial n = (if n \<le> 1 then 1 else n * factorial (n - 1))"

declare factorial.simps [simp del]

text \<open>
  The recursive closure \<open>permute\<close> of \<open>generatePermutations\<close>, with the shared \<open>result\<close> array
  passed through.
\<close>

function permute :: "nat \<Rightarrow> 'a list \<Rightarrow> 'a list \<Rightarrow> 'a list list \<Rightarrow> 'a list list" where
  "permute maxCount current remaining result =
     (if length result \<ge> maxCount then result
      else if length remaining = 0 then result @ [current]
      else fold (\<lambda>i res. permute maxCount (current @ [remaining ! i]) (splice_out i remaining) res)
             [0..<length remaining] result)"
  by pat_completeness auto
termination
  by (relation "measure (\<lambda>(maxCount, current, remaining, result). length remaining)")
     (auto simp: splice_out_def)

declare permute.simps [simp del]

definition generatePermutations :: "'a list \<Rightarrow> nat \<Rightarrow> 'a list list" where
  "generatePermutations arr maxCount = take maxCount (permute maxCount [] arr [])"

text \<open>
  \<open>calculateOrderScore\<close>: each edge is resolved through \<open>calculateSegment\<close>; the \<open>catch\<close> branch
  scores the edge from the geodesic distance.
\<close>

definition order_edge_score ::
  "Env \<Rightarrow> OptimizationMethod \<Rightarrow> VehicleType \<Rightarrow> Location \<Rightarrow> Location \<Rightarrow> number \<times> ServiceState
   \<Rightarrow> number \<times> ServiceState" where
  "order_edge_score env method v from to acc =
     (case acc of (totalScore, s) \<Rightarrow>
        (case (coordinates from, coordinates to) of
           (Some cf, Some ct) \<Rightarrow>
             (case calculateSegment env from to v s of
                (Inr segment, s1) \<Rightarrow>
                  (case method of
                     shortest_distance \<Rightarrow> (num_add totalScore (distance segment), s1)
                   | fastest_time \<Rightarrow> (num_add totalScore (duration segment), s1)
                   | balanced \<Rightarrow>
                       (num_add totalScore
                          (num_add (num_mul (distance segment) (Num 0.4))
                                   (num_mul (duration segment) (Num 0.6))), s1))
              | (Inl e, s1) \<Rightarrow>
                  (let dkm = calculateDistance (math env) cf ct
                   in case method of
                        shortest_distance \<Rightarrow> (num_add totalScore dkm, s1)
                      | fastest_time \<Rightarrow>
                          (let estimatedSpeed = (if v = truck then Num 50 else Num 65)
                           in (num_add totalScore (num_mul (num_div dkm estimatedSpeed) (Num 60)), s1))
                      | balanced \<Rightarrow>
                          (let estimatedSpeed = (if v = truck then Num 55 else Num 60);
                               time = num_mul (num_div dkm estimatedSpeed) (Num 60)
                           in (num_add totalScore
                                 (num_add (num_mul dkm (Num 0.4)) (num_mul time (Num 0.6))), s1))))
         | _ \<Rightarrow> (totalScore, s)))"

definition calculateOrderScore ::
  "Env \<Rightarrow> Location list \<Rightarrow> OptimizationMethod \<Rightarrow> bool \<Rightarrow> VehicleType \<Rightarrow> ServiceState
   \<Rightarrow> number \<times> ServiceState" where
  "calculateOrderScore env locs method loop v s =
     (if length locs = 0 then (Num 0, s)
      else (let segmentCount = (if loop then length locs else length locs - 1)
            in foldl (\<lambda>acc i.
                 (let from = locs ! i;
                      to = (if loop \<and> i = length locs - 1 then locs ! 0 else locs ! (i + 1))
                  in order_edge_score env method v from to acc))
               (Num 0, s) [0..<segmentCount]))"

text \<open>The \<open>for\<close> loop of \<open>advancedOptimization\<close> over the generated permutations.\<close>

fun try_permutations ::
  "Env \<Rightarrow> OptimizationMethod \<Rightarrow> bool \<Rightarrow> VehicleType \<Rightarrow> Location list list
   \<Rightarrow> (Location list \<times> number option) \<times> ServiceState
   \<Rightarrow> (Location list \<times> number option) \<times> ServiceState" where
  "try_permutations env method loop v [] acc = acc"
| "try_permutations env method loop v (permutation # rest) (best, s) =
     (case calculateOrderScore env permutation method loop v s of
        (score, s1) \<Rightarrow> try_permutations env method loop v rest (keep_better best permutation score, s1))"

definition advancedOptimization ::
  "Env \<Rightarrow> Location list \<Rightarrow> OptimizationMethod \<Rightarrow> bool \<Rightarrow> VehicleType \<Rightarrow> ServiceState
   \<Rightarrow> (Location list \<times> ServiceState) option" where
  "advancedOptimization env locs method loop v s =
     (if length locs \<le> 1 then Some (locs, s)
      else (let maxPermutations = min (factorial (length locs)) 120
            in case nearestNeighborOptimization (math env) locs method loop of
                 None \<Rightarrow> None
               | Some nearestNeighborResult \<Rightarrow>
                   (case calculateOrderScore env nearestNeighborResult method loop v s of
                      (nearestScore, s1) \<Rightarrow>
                        (let best1 = keep_better (locs, None) nearestNeighborResult nearestScore
                         in if length locs \<le> 6
                            then (let permutations = generatePermutations locs (min maxPermutations 20)
                                  in case try_permutations env method loop v permutations (best1, s1) of
                                       (best2, s2) \<Rightarrow> Some (fst best2, s2))
                            else Some (fst best1, s1)))))"

section \<open>Location sequencer: locked stops\<close>

text \<open>\<open>loc.isLocked\<close> as a condition: true only for the value \<open>true\<close>.\<close>

definition locked :: "Location \<Rightarrow> bool" where
  "locked loc = (isLocked loc = Some True)"

text \<open>\<open>a.order || 0\<close>\<close>

definition order_or_zero :: "Location \<Rightarrow> real" where
  "order_or_zero loc = (case loc_order loc of None \<Rightarrow> 0 | Some r \<Rightarrow> r)"

text \<open>
  The merge loop over the positions \<open>i\<close>: a locked stop whose \<open>order\<close> is exactly \<open>i\<close> takes the
  position, otherwise the next optimised stop does, if one is left.
\<close>

fun merge_locked ::
  "Location list \<Rightarrow> Location list \<Rightarrow> nat list \<Rightarrow> nat \<Rightarrow> Location list \<Rightarrow> Location list" where
  "merge_locked lockedLocations optimized [] optimizedIndex result = result"
| "merge_locked lockedLocations optimized (i # rest) optimizedIndex result =
     (case find (\<lambda>loc. loc_order loc = Some (real i)) lockedLocations of
        Some lockedAtPosition \<Rightarrow>
          merge_locked lockedLocations optimized rest optimizedIndex (result @ [lockedAtPosition])
      | None \<Rightarrow>
          (if optimizedIndex < length optimized
           then merge_locked lockedLocations optimized rest (Suc optimizedIndex)
                  (result @ [optimized ! optimizedIndex])
           else merge_locked lockedLocations optimized rest optimizedIndex result))"

text \<open>
  \<open>optimizeLocationOrder\<close>. \<open>Array.prototype.sort\<close> is stable and, with this comparator, orders
  by \<open>order || 0\<close>.
\<close>

definition optimizeLocationOrder ::
  "Env \<Rightarrow> Location list \<Rightarrow> OptimizationMethod \<Rightarrow> bool \<Rightarrow> VehicleType \<Rightarrow> ServiceState
   \<Rightarrow> (Location list \<times> ServiceState) option" where
  "optimizeLocationOrder env locs method loop v s =
     (if length locs \<le> 2 then Some (locs, s)
      else (let lockedLocations = filter locked locs;
                unlockedLocations = filter (\<lambda>loc. \<not> locked loc) locs
            in if length unlockedLocations = 0
               then Some (sort_key order_or_zero locs, s)
               else (case (if length unlockedLocations \<le> 8
                           then advancedOptimization env unlockedLocations method loop v s
                           else map_option (\<lambda>r. (r, s))
                                  (nearestNeighborOptimization (math env) unlockedLocations method loop)) of
                       None \<Rightarrow> None
                     | Some (optimized, s1) \<Rightarrow>
                         Some (merge_locked lockedLocations optimized [0..<length locs] 0 [], s1))))"

text \<open>
  The sort of the all-locked branch works in place on the request's own array, which
  \<open>calculateRoute\<close> later passes to \<open>setCachedRoute\<close>: the request's stops after the call.
\<close>

definition locations_after_optimize :: "Location list \<Rightarrow> Location list" where
  "locations_after_optimize locs =
     (if length locs \<le> 2 then locs
      else if length (filter (\<lambda>loc. \<not> locked loc) locs) = 0 then sort_key order_or_zero locs
      else locs)"

section \<open>Route optimization orchestrator\<close>

fun segments_loop ::
  "Env \<Rightarrow> Location list \<Rightarrow> VehicleType \<Rightarrow> nat list \<Rightarrow> RouteSegment list \<Rightarrow> ServiceState
   \<Rightarrow> (error + RouteSegment list) \<times> ServiceState" where
  "segments_loop env locs v [] segs s = (Inr segs, s)"
| "segments_loop env locs v (i # rest) segs s =
     (case calculateSegment env (locs ! i) (locs ! (i + 1)) v s of
        (Inl e, s1) \<Rightarrow> (Inl e, s1)
      | (Inr segment, s1) \<Rightarrow> segments_loop env locs v rest (segs @ [segment]) s1)"

definition calculateRouteSegments ::
  "Env \<Rightarrow> Location list \<Rightarrow> VehicleType \<Rightarrow> bool \<Rightarrow> ServiceState
   \<Rightarrow> (error + RouteSegment list) \<times> ServiceState" where
  "calculateRouteSegments env locs v loop s =
     (case segments_loop env locs v [0..<length locs - 1] [] s of
        (Inl e, s1) \<Rightarrow> (Inl e, s1)
      | (Inr segs, s1) \<Rightarrow>
          (if loop \<and> length locs > 2
           then (case calculateSegment env (locs ! (length locs - 1)) (locs ! 0) v s1 of
                   (Inl e, s2) \<Rightarrow> (Inl e, s2)
                 | (Inr returnSegment, s2) \<Rightarrow> (Inr (segs @ [returnSegment]), s2))
           else (Inr segs, s1)))"

definition int_to_string :: "int \<Rightarrow> string" where
  "int_to_string i = (if i < 0 then ''-'' @ nat_to_string (nat (- i)) else nat_to_string (nat i))"

definition generateRouteId :: "Env \<Rightarrow> ServiceState \<Rightarrow> string \<times> ServiceState" where
  "generateRouteId env s =
     (''route_'' @ int_to_string (date_now env (tick s)) @ ''_'' @ random_suffix env (Suc (tick s)),
      advance (advance s))"

text \<open>
  \<open>calculateRoute\<close>. The result is \<open>None\<close> when the sequencer never returns; a thrown error is
  \<open>Inl\<close>, wrapped by the final \<open>catch\<close>.
\<close>

definition calculateRoute ::
  "Env \<Rightarrow> RouteOptimizationRequest \<Rightarrow> ServiceState
   \<Rightarrow> ((error + RouteOptimizationResponse) \<times> ServiceState) option" where
  "calculateRoute env request s =
     (let startTime = date_now env (tick s)
      in case getCachedRoute env request (advance s) of
           (Some cachedRoute, s1) \<Rightarrow>
             Some (Inr \<lparr>route = cachedRoute,
                        metadata = \<lparr>calculationTime = date_now env (tick s1) - startTime,
                                    algorithm = ''cache-hit'', apiProvider = ''Cache''\<rparr>\<rparr>,
                   advance s1)
         | (None, s1) \<Rightarrow>
             (let s2 = clearSegmentCache s1;
                  missingCoordinates = filter (\<lambda>loc. coordinates loc = None) (req_locations request)
              in if length missingCoordinates > 0
                 then Some (Inl (RouteFailed (MissingCoordinates (map address missingCoordinates))), s2)
                 else if length (req_locations request) < 2
                 then Some (Inl (RouteFailed TooFewLocations), s2)
                 else (case optimizeLocationOrder env (req_locations request)
                              (req_optimizationMethod request) (req_isLoop request)
                              (req_vehicleType request) s2 of
                         None \<Rightarrow> None
                       | Some (optimizedLocations, s3) \<Rightarrow>
                           (case calculateRouteSegments env optimizedLocations
                                   (req_vehicleType request) (req_isLoop request) s3 of
                              (Inl e, s4) \<Rightarrow> Some (Inl (RouteFailed e), s4)
                            | (Inr segs, s4) \<Rightarrow>
                                (case generateRouteId env s4 of
                                   (rid, s5) \<Rightarrow>
                                     (let r = \<lparr>route_id = rid,
                                               locations = optimizedLocations,
                                               totalDistance = foldl (\<lambda>sum seg. num_add sum (distance seg)) (Num 0) segs,
                                               totalDuration = foldl (\<lambda>sum seg. num_add sum (duration seg)) (Num 0) segs,
                                               vehicleType = req_vehicleType request,
                                               isLoop = req_isLoop request,
                                               segments = segs,
                                               optimizationMethod = req_optimizationMethod request\<rparr>;
                                          request1 = request\<lparr>req_locations :=
                                                       locations_after_optimize (req_locations request)\<rparr>;
                                          s6 = setCachedRoute env request1 r s5
                                      in Some (Inr \<lparr>route = r,
                                                     metadata = \<lparr>calculationTime = date_now env (tick s6) - startTime,
                                                                 algorithm = ''openstreetmap-free'',
                                                                 apiProvider = ''nominatim+osrm''\<rparr>\<rparr>,
                                               advance s6)))))))"

section \<open>Predicates used in the proofs\<close>



text \<open>
  The segment cache of a service whose order record is in step with its map: the record
  lists the map's keys in insertion order.
\<close>

definition seg_inv :: "ServiceState \<Rightarrow> bool" where
  "seg_inv s \<longleftrightarrow> map fst (segmentCache s) = segmentCacheOrder s \<and> distinct (segmentCacheOrder s)
     \<and> length (segmentCacheOrder s) \<le> 100 \<and> [] \<notin> set (segmentCacheOrder s)"

text \<open>The characters of a rendered number.\<close>

definition numchars :: "char set" where
  "numchars = set ''0123456789.-''"

text \<open>A rendered number: digits and a sign, a point, then exactly four digits.\<close>

definition fixed4 :: "string \<Rightarrow> bool" where
  "fixed4 s \<longleftrightarrow> (\<exists>a b. s = a @ ''.'' @ b \<and> CHR ''.'' \<notin> set a \<and> length b = 4) \<and> set s \<subseteq> numchars"

text \<open>The strings a stop can render are a prefix-free code.\<close>

definition numstr :: "string \<Rightarrow> bool" where
  "numstr s \<longleftrightarrow> s = ''undefined'' \<or> fixed4 s"

text \<open>
  A route cache with one entry per key, within its capacity, and without a timestamp after
  the given clock reading.
\<close>

definition route_cache_wf :: "int \<Rightarrow> (string \<times> CacheEntry) list \<Rightarrow> bool" where
  "route_cache_wf now cache \<longleftrightarrow>
     distinct (map fst cache) \<and> length cache \<le> 50 \<and> (\<forall>e \<in> set cache. timestamp (snd e) \<le> now)"

text \<open>Every distance computed between two of the stops is a number.\<close>

definition distances_defined :: "MathLib \<Rightarrow> Location list \<Rightarrow> bool" where
  "distances_defined M locs =
     list_all (\<lambda>a. list_all (\<lambda>b.
        (case (coordinates a, coordinates b) of
           (Some ca, Some cb) \<Rightarrow> calculateDistance M ca cb \<noteq> NaN
         | _ \<Rightarrow> True)) locs) locs"

section \<open>Example data\<close>

text \<open>A stop with coordinates and no lock, as the test helper \<open>createMockLocation\<close> builds it.\<close>

definition stop :: "string \<Rightarrow> real \<Rightarrow> real \<Rightarrow> Location" where
  "stop i lat lon =
     \<lparr>loc_id = i, address = ''Address '' @ i,
      coordinates = Some \<lparr>latitude = lat, longitude = lon\<rparr>,
      isLocked = None, lockPosition = None, loc_order = None\<rparr>"

text \<open>
  A world in which every provider call fails, the clock advances by one millisecond per
  reading, and the mathematical library is exact.
\<close>

definition offline :: Env where
  "offline =
     \<lparr>math = exactMath,
      openRouteServiceApiKey = None,
      ors_fetch = (\<lambda>k a b. None),
      osrm_fetch = (\<lambda>k a b. None),
      date_now = (\<lambda>k. int k),
      random_suffix = (\<lambda>k. ''abcdefghi'')\<rparr>"

definition mockRequest :: "Location list \<Rightarrow> RouteOptimizationRequest" where
  "mockRequest locs =
     \<lparr>req_locations = locs, req_vehicleType = car, req_isLoop = False,
      req_optimizationMethod = balanced\<rparr>"

definition mockRoute :: Route where
  "mockRoute =
     \<lparr>route_id = ''route_123'',
      locations = [stop ''1'' 48.8566 2.3522, stop ''2'' 48.8606 2.3376],
      totalDistance = Num 10.5, totalDuration = Num 15, vehicleType = car, isLoop = False,
      segments = [], optimizationMethod = balanced\<rparr>"

text \<open>A locked stop pinned to a position.\<close>

definition lockedStop :: "string \<Rightarrow> real \<Rightarrow> real \<Rightarrow> real \<Rightarrow> Location" where
  "lockedStop i lat lon pos = (stop i lat lon)\<lparr>isLocked := Some True, loc_order := Some pos\<rparr>"


text \<open>
  Four stops forming a convex quadrilateral in the latitude/longitude plane: the two poles
  and two points of the equator, 60 degrees of longitude apart. The unit of the distances
  between them is a twelfth of the circumference.
\<close>

definition northPole :: Location where "northPole = stop ''N'' 90 0"
definition east :: Location where "east = stop ''E'' 0 30"
definition southPole :: Location where "southPole = stop ''S'' (- 90) 0"
definition west :: Location where "west = stop ''W'' 0 (- 30)"

definition twelfth :: real where
  "twelfth = 6371 * pi / 6"

text \<open>
  Ninety-nine deliveries to one hub from stops with pairwise different ids, which fill the
  segment cache up to one entry below its capacity.
\<close>

definition hub :: Location where "hub = stop ''h'' 0 0"

definition burstStop :: "nat \<Rightarrow> Location" where
  "burstStop n = stop (replicate (Suc n) CHR ''x'') 0 0"

definition burst :: "(Location \<times> Location \<times> VehicleType) list" where
  "burst = map (\<lambda>n. (burstStop n, hub, car)) [0..<99]"

definition burstKeys :: "string list" where
  "burstKeys = map (\<lambda>n. replicate (Suc n) CHR ''x'' @ ''-h-car'') [0..<99]"


lemma nat_to_string_small: "n < 10 \<Longrightarrow> nat_to_string n = [digit_char n]"
  by (simp add: nat_to_string.simps)

lemma nat_to_string_large: "10 \<le> n \<Longrightarrow> nat_to_string n = nat_to_string (n div 10) @ [digit_char (n mod 10)]"
  by (subst nat_to_string.simps) simp

lemma replicate_num: "replicate (numeral k) x = x # replicate (pred_numeral k) x"
  by (simp add: numeral_eq_Suc)

lemmas toFixed_eval =
  replicate_num toFixed_def pad_zeros_def Let_def nat_to_string_small nat_to_string_large digit_char_def

lemma offline_now [simp]: "date_now offline k = int k"
  by (simp add: offline_def)

lemma initial_fields [simp]:
  "routeCache initialState = []" "tick initialState = 0"
  "segmentCache initialState = []" "segmentCacheOrder initialState = []"
  by (simp_all add: initialState_def)

subsection \<open>Arithmetic on numbers\<close>

lemma num_add_simps [simp]:
  "num_add (Num a) (Num b) = Num (a + b)" "num_add NaN y = NaN" "num_add x NaN = NaN"
  by (simp_all add: num_add_def split: number.splits)

lemma num_sub_simps [simp]:
  "num_sub (Num a) (Num b) = Num (a - b)" "num_sub NaN y = NaN" "num_sub x NaN = NaN"
  by (simp_all add: num_sub_def split: number.splits)

lemma num_mul_simps [simp]:
  "num_mul (Num a) (Num b) = Num (a * b)" "num_mul NaN y = NaN" "num_mul x NaN = NaN"
  by (simp_all add: num_mul_def split: number.splits)

lemma num_div_simps [simp]:
  "num_div (Num a) (Num b) = (if b = 0 then NaN else Num (a / b))"
  "num_div NaN y = NaN" "num_div x NaN = NaN"
  by (simp_all add: num_div_def split: number.splits)

lemma num_lt_simps [simp]:
  "num_lt (Num a) (Num b) \<longleftrightarrow> a < b" "\<not> num_lt NaN y" "\<not> num_lt x NaN"
  by (simp_all add: num_lt_def split: number.splits)

lemma num_le_simps [simp]:
  "num_le (Num a) (Num b) \<longleftrightarrow> a \<le> b" "\<not> num_le NaN y" "\<not> num_le x NaN"
  by (simp_all add: num_le_def split: number.splits)

lemma num_le_trans: "num_le x y \<Longrightarrow> num_le y z \<Longrightarrow> num_le x z"
  by (cases x; cases y; cases z) simp_all

lemma num_le_refl: "x \<noteq> NaN \<Longrightarrow> num_le x x"
  by (cases x) simp_all

lemma not_num_lt: "x \<noteq> NaN \<Longrightarrow> y \<noteq> NaN \<Longrightarrow> \<not> num_lt x y \<Longrightarrow> num_le y x"
  by (cases x; cases y) simp_all

lemma num_lt_le: "num_lt x y \<Longrightarrow> num_le x y"
  by (cases x; cases y) simp_all

lemma num_gt_simps [simp]:
  "num_gt (Num a) (Num b) \<longleftrightarrow> b < a" "\<not> num_gt NaN y" "\<not> num_gt x NaN"
  by (simp_all add: num_gt_def)

lemma Math_sqrt_simps [simp]:
  "Math_sqrt (Num a) = (if a < 0 then NaN else Num (sqrt a))" "Math_sqrt NaN = NaN"
  by (simp_all add: Math_sqrt_def)

lemma Math_sin_simps [simp]: "Math_sin M (Num a) = Num (sin_of M a)" "Math_sin M NaN = NaN"
  by (simp_all add: Math_sin_def)

lemma Math_cos_simps [simp]: "Math_cos M (Num a) = Num (cos_of M a)" "Math_cos M NaN = NaN"
  by (simp_all add: Math_cos_def)

lemma Math_atan2_simps [simp]:
  "Math_atan2 M (Num a) (Num b) = Num (atan2_of M a b)"
  "Math_atan2 M NaN x = NaN" "Math_atan2 M y NaN = NaN"
  by (simp_all add: Math_atan2_def split: number.splits)

lemma degToRad_Num [simp]: "degToRad (Num d) = Num (d * (pi / 180))"
  by (simp add: degToRad_def)

lemma exactMath_fields [simp]:
  "sin_of exactMath = sin" "cos_of exactMath = cos" "atan2_of exactMath = atan2"
  by (simp_all add: exactMath_def)

lemma offline_math [simp]: "math offline = exactMath"
  by (simp add: offline_def)


lemma calculateDistance_of_term:
  assumes "haversine M c1 c2 = Num a"
  shows "calculateDistance M c1 c2 =
           (if a < 0 \<or> 1 < a then NaN else Num (6371 * (2 * atan2_of M (sqrt a) (sqrt (1 - a)))))"
  using assms by (simp add: calculateDistance_def Let_def)

text \<open>
  C4 fails on the code: \<open>clearSegmentCache\<close> empties the key-to-segment map and leaves the
  insertion-order record as it was. After one resolved segment and the clear, the map is
  empty and the order record still holds that segment's key.
\<close>

theorem clearSegmentCache_keeps_order_record:
  "segmentCache (clearSegmentCache (snd (calculateSegment offline
       (stop ''1'' 48.8566 2.3522) (stop ''2'' 48.8606 2.3376) car initialState))) = []
   \<and> segmentCacheOrder (clearSegmentCache (snd (calculateSegment offline
       (stop ''1'' 48.8566 2.3522) (stop ''2'' 48.8606 2.3376) car initialState))) = [''1-2-car'']"
  by (simp add: initialState_def clearSegmentCache_def calculateSegment_def stop_def offline_def Map_get_def
      generateSegmentKey_def vehicle_string_def cacheSegment_def advance_def Let_def)

subsection \<open>The segment cache of a fresh service is a FIFO queue\<close>

lemma Map_get_None_iff: "Map_get k m = None \<longleftrightarrow> k \<notin> set (map fst m)"
  by (simp add: Map_get_def map_of_eq_None_iff)

lemma map_fst_Map_set_new: "k \<notin> set (map fst m) \<Longrightarrow> map fst (Map_set k v m) = map fst m @ [k]"
  by (induction m) auto

lemma Map_delete_hd: "distinct (map fst m) \<Longrightarrow> m \<noteq> [] \<Longrightarrow> Map_delete (fst (hd m)) m = tl m"
  by (cases m) (auto simp: Map_delete_def filter_id_conv rev_image_eqI)

lemma evict_oldest_below: "length m < 100 \<Longrightarrow> evict_oldest m ord = (m, ord)"
  by (cases ord) (auto simp: MAX_SEGMENT_CACHE_SIZE_def)

lemma evict_oldest_full:
  assumes "map fst m = ord" "distinct ord" "length ord = 100" "[] \<notin> set ord"
  shows "evict_oldest m ord = (tl m, tl ord)"
proof -
  from assms obtain k rest where ord: "ord = k # rest" by (cases ord) auto
  with assms have m: "m \<noteq> []" "fst (hd m) = k" by (auto simp: hd_map[symmetric] simp del: hd_map)
  have k: "k \<noteq> []" using assms ord by auto
  have "Map_delete k m = tl m" using Map_delete_hd[of m] assms m by simp
  moreover have len: "length m = 100" using assms(1,3) by (metis length_map)
  moreover have "length (tl m) < 100" using len by simp
  ultimately show ?thesis using ord k
    by (simp add: MAX_SEGMENT_CACHE_SIZE_def evict_oldest_below)
qed

lemma cacheSegment_fifo:
  assumes "seg_inv s" "k \<notin> set (segmentCacheOrder s)" "k \<noteq> []"
  shows "segmentCacheOrder (cacheSegment k seg s) = fifo_put 100 k (segmentCacheOrder s)
       \<and> seg_inv (cacheSegment k seg s)"
proof (cases "length (segmentCacheOrder s) = 100")
  case True
  have ev: "evict_oldest (segmentCache s) (segmentCacheOrder s) = (tl (segmentCache s), tl (segmentCacheOrder s))"
    using assms True by (intro evict_oldest_full) (auto simp: seg_inv_def)
  have ne: "segmentCacheOrder s \<noteq> []" using True by auto
  have tlm: "map fst (tl (segmentCache s)) = tl (segmentCacheOrder s)"
    using assms(1) by (simp add: seg_inv_def map_tl)
  have notin: "k \<notin> set (map fst (tl (segmentCache s)))"
    using assms(2) tlm ne by (metis list.set_sel(2))
  show ?thesis using assms True ne tlm notin
    by (auto simp: cacheSegment_def ev fifo_put_def seg_inv_def map_fst_Map_set_new distinct_tl
        dest: list.set_sel(2))
next
  case False
  then have lt: "length (segmentCache s) < 100" using assms(1)
    by (auto simp: seg_inv_def) (metis le_neq_implies_less length_map)
  have notin: "k \<notin> set (map fst (segmentCache s))" using assms by (simp add: seg_inv_def)
  show ?thesis using assms False notin
    by (auto simp: cacheSegment_def evict_oldest_below[OF lt] fifo_put_def seg_inv_def map_fst_Map_set_new)
qed

lemma seg_inv_advance [simp]: "seg_inv (advance s) = seg_inv s"
  by (simp add: seg_inv_def advance_def)

lemma order_advance [simp]: "segmentCacheOrder (advance s) = segmentCacheOrder s"
  "segmentCache (advance s) = segmentCache s"
  by (simp_all add: advance_def)

lemma generateSegmentKey_nonempty [simp]: "generateSegmentKey from to v \<noteq> []"
  by (simp add: generateSegmentKey_def)

lemma Map_get_Some_in: "Map_get k m = Some x \<Longrightarrow> k \<in> fst ` set m"
  by (metis Map_get_None_iff option.distinct(1) set_map)

lemma calculateSegment_fifo:
  assumes "seg_inv s"
  shows "segmentCacheOrder (snd (calculateSegment env from to v s)) =
           (if coordinates from = None \<or> coordinates to = None then segmentCacheOrder s
            else if generateSegmentKey from to v \<in> set (segmentCacheOrder s) then segmentCacheOrder s
            else fifo_put 100 (generateSegmentKey from to v) (segmentCacheOrder s))
       \<and> seg_inv (snd (calculateSegment env from to v s))"
proof -
  have keys: "set (segmentCacheOrder s) = set (map fst (segmentCache s))"
    using assms by (simp add: seg_inv_def)
  have step: "\<And>seg s1. seg_inv s1 \<Longrightarrow> segmentCacheOrder s1 = segmentCacheOrder s \<Longrightarrow>
      generateSegmentKey from to v \<notin> set (segmentCacheOrder s) \<Longrightarrow>
      segmentCacheOrder (cacheSegment (generateSegmentKey from to v) seg s1) =
        fifo_put 100 (generateSegmentKey from to v) (segmentCacheOrder s)
      \<and> seg_inv (cacheSegment (generateSegmentKey from to v) seg s1)"
    using cacheSegment_fifo by (metis generateSegmentKey_nonempty)
  show ?thesis
    using assms keys step[of s] step[of "advance s"] step[of "advance (advance s)"]
    by (auto simp: calculateSegment_def calculateSegmentWithORS_def Let_def Map_get_None_iff
        dest: Map_get_Some_in split: option.splits prod.splits if_splits)
qed

lemma run_segments_fifo:
  "seg_inv s \<Longrightarrow> segmentCacheOrder (run_segments env calls s) = fifo_run calls (segmentCacheOrder s)
     \<and> seg_inv (run_segments env calls s)"
proof (induction calls arbitrary: s)
  case Nil
  then show ?case by simp
next
  case (Cons c calls)
  obtain f t v where c: "c = (f, t, v)" by (cases c)
  from calculateSegment_fifo[OF Cons.prems, of env f t v]
  show ?case using Cons.IH[of "snd (calculateSegment env f t v s)"] c by auto
qed

lemma fresh_service_is_fifo:
  "segmentCacheOrder (run_segments env calls initialState) = fifo_run calls []
   \<and> map fst (segmentCache (run_segments env calls initialState)) = fifo_run calls []"
proof -
  have "seg_inv initialState" by (simp add: seg_inv_def initialState_def)
  from run_segments_fifo[OF this, of env calls] show ?thesis
    by (simp add: seg_inv_def initialState_def)
qed

subsection \<open>The segment cache after a clear\<close>

lemma map_fst_Map_delete: "map fst (Map_delete k m) = filter (\<lambda>x. x \<noteq> k) (map fst m)"
  by (induction m) (auto simp: Map_delete_def)

lemma cacheSegment_below:
  assumes "length (segmentCache s) < 100" "k \<notin> set (map fst (segmentCache s))"
  shows "map fst (segmentCache (cacheSegment k seg s)) = map fst (segmentCache s) @ [k]"
    and "segmentCacheOrder (cacheSegment k seg s) = segmentCacheOrder s @ [k]"
  using assms by (simp_all add: cacheSegment_def evict_oldest_below map_fst_Map_set_new)

lemma cacheSegment_stale_head:
  assumes "length (segmentCache s) = 100" "distinct (map fst (segmentCache s))"
    and "segmentCacheOrder s = k0 # rest" "k0 \<noteq> []" "k0 \<in> set (map fst (segmentCache s))"
    and "k \<notin> set (map fst (segmentCache s))"
  shows "map fst (segmentCache (cacheSegment k seg s)) = filter (\<lambda>x. x \<noteq> k0) (map fst (segmentCache s)) @ [k]"
    and "segmentCacheOrder (cacheSegment k seg s) = rest @ [k]"
proof -
  let ?m = "segmentCache s"
  have "length (filter (\<lambda>x. x \<noteq> k0) (map fst ?m)) < length (map fst ?m)"
    using assms(5) by (intro length_filter_less[of k0]) simp_all
  then have "length (Map_delete k0 ?m) < 100"
    using assms(1) by (metis length_map map_fst_Map_delete)
  then have ev: "evict_oldest ?m (k0 # rest) = (Map_delete k0 ?m, rest)"
    using assms(1,4) by (simp add: MAX_SEGMENT_CACHE_SIZE_def evict_oldest_below)
  have notin: "k \<notin> set (map fst (Map_delete k0 ?m))"
    using assms(6) by (simp add: map_fst_Map_delete)
  have cs: "cacheSegment k seg s
      = s\<lparr>segmentCache := Map_set k seg (Map_delete k0 ?m), segmentCacheOrder := rest @ [k]\<rparr>"
    by (simp only: cacheSegment_def assms(3) ev prod.case)
  show "map fst (segmentCache (cacheSegment k seg s)) = filter (\<lambda>x. x \<noteq> k0) (map fst ?m) @ [k]"
    using notin by (simp add: cs map_fst_Map_set_new map_fst_Map_delete del: set_map)
  show "segmentCacheOrder (cacheSegment k seg s) = rest @ [k]"
    by (simp add: cs)
qed

lemma calculateSegment_miss:
  assumes "coordinates f \<noteq> None" "coordinates t \<noteq> None"
    and "generateSegmentKey f t v \<notin> set (map fst (segmentCache s))"
  shows "\<exists>seg s1. snd (calculateSegment env f t v s) = cacheSegment (generateSegmentKey f t v) seg s1
           \<and> segmentCache s1 = segmentCache s \<and> segmentCacheOrder s1 = segmentCacheOrder s"
proof -
  have none: "Map_get (generateSegmentKey f t v) (segmentCache s) = None"
    using assms(3) by (simp add: Map_get_None_iff)
  obtain cf ct where c: "coordinates f = Some cf" "coordinates t = Some ct" using assms by auto
  have adv: "\<And>seg s1. segmentCache s1 = segmentCache s \<Longrightarrow> segmentCacheOrder s1 = segmentCacheOrder s \<Longrightarrow>
      \<exists>seg' s2. cacheSegment (generateSegmentKey f t v) seg s1 = cacheSegment (generateSegmentKey f t v) seg' s2
           \<and> segmentCache s2 = segmentCache s \<and> segmentCacheOrder s2 = segmentCacheOrder s"
    by blast
  show ?thesis
    using adv[of "advance s"] adv[of "advance (advance s)"]
    by (auto simp: calculateSegment_def calculateSegmentWithORS_def Let_def c none
        split: option.splits)
qed

lemma run_segments_below:
  assumes "\<forall>(f, t, v) \<in> set calls. coordinates f \<noteq> None \<and> coordinates t \<noteq> None"
    and "distinct (map (\<lambda>(f, t, v). generateSegmentKey f t v) calls)"
    and "set (map (\<lambda>(f, t, v). generateSegmentKey f t v) calls) \<inter> set (map fst (segmentCache s)) = {}"
    and "length (segmentCache s) + length calls \<le> 100"
  shows "map fst (segmentCache (run_segments env calls s))
           = map fst (segmentCache s) @ map (\<lambda>(f, t, v). generateSegmentKey f t v) calls
       \<and> segmentCacheOrder (run_segments env calls s)
           = segmentCacheOrder s @ map (\<lambda>(f, t, v). generateSegmentKey f t v) calls"
  using assms
proof (induction calls arbitrary: s)
  case Nil
  then show ?case by simp
next
  case (Cons c calls)
  obtain f t v where c: "c = (f, t, v)" by (cases c)
  let ?k = "generateSegmentKey f t v"
  let ?s' = "snd (calculateSegment env f t v s)"
  have k: "?k \<notin> set (map fst (segmentCache s))" using Cons.prems(3) c by auto
  have co: "coordinates f \<noteq> None" "coordinates t \<noteq> None" using Cons.prems(1) c by auto
  obtain seg s1 where s1: "?s' = cacheSegment ?k seg s1"
    "segmentCache s1 = segmentCache s" "segmentCacheOrder s1 = segmentCacheOrder s"
    using calculateSegment_miss[OF co k] by blast
  have lt: "length (segmentCache s1) < 100" using Cons.prems(4) s1 by simp
  have m: "map fst (segmentCache ?s') = map fst (segmentCache s) @ [?k]"
    and o: "segmentCacheOrder ?s' = segmentCacheOrder s @ [?k]"
    using cacheSegment_below[OF lt, of ?k seg] k s1 by simp_all
  have len: "length (segmentCache ?s') = Suc (length (segmentCache s))"
    using m by (metis length_append_singleton length_map)
  have ih: "map fst (segmentCache (run_segments env calls ?s'))
           = map fst (segmentCache ?s') @ map (\<lambda>(f, t, v). generateSegmentKey f t v) calls
       \<and> segmentCacheOrder (run_segments env calls ?s')
           = segmentCacheOrder ?s' @ map (\<lambda>(f, t, v). generateSegmentKey f t v) calls"
  proof (rule Cons.IH)
    show "\<forall>(f, t, v) \<in> set calls. coordinates f \<noteq> None \<and> coordinates t \<noteq> None"
      using Cons.prems(1) by simp
    show "distinct (map (\<lambda>(f, t, v). generateSegmentKey f t v) calls)"
      using Cons.prems(2) by simp
    show "set (map (\<lambda>(f, t, v). generateSegmentKey f t v) calls) \<inter> set (map fst (segmentCache ?s')) = {}"
      using Cons.prems(2,3) c unfolding m by auto
    show "length (segmentCache ?s') + length calls \<le> 100"
      using Cons.prems(4) len by simp
  qed
  show ?case using ih c by (simp add: m o)
qed

lemma segment_key_stop:
  "generateSegmentKey (stop i a b) (stop j c d) v = i @ ''-'' @ j @ ''-'' @ vehicle_string v"
  by (simp add: generateSegmentKey_def stop_def)

lemma burst_keys: "map (\<lambda>(f, t, v). generateSegmentKey f t v) burst = burstKeys"
  by (simp add: burst_def burstKeys_def generateSegmentKey_def burstStop_def hub_def stop_def
      vehicle_string_def)

lemma burst_coordinates: "\<forall>(f, t, v) \<in> set burst. coordinates f \<noteq> None \<and> coordinates t \<noteq> None"
  by (auto simp: burst_def burstStop_def hub_def stop_def)

lemma distinct_burstKeys: "distinct burstKeys"
proof -
  have "inj_on (\<lambda>n. replicate (Suc n) CHR ''x'' @ ''-h-car'') (set [0..<99])"
  proof (rule inj_onI)
    fix a b :: nat
    assume "replicate (Suc a) CHR ''x'' @ ''-h-car'' = replicate (Suc b) CHR ''x'' @ ''-h-car''"
    then have "length (replicate (Suc a) CHR ''x'') = length (replicate (Suc b) CHR ''x'')"
      by simp
    then show "a = b" by simp
  qed
  then show ?thesis by (simp add: burstKeys_def distinct_map)
qed

lemma burstKeys_first: "k \<in> set burstKeys \<Longrightarrow> hd k = CHR ''x''"
  by (auto simp: burstKeys_def)

lemma length_burstKeys: "length burstKeys = 99"
  by (simp add: burstKeys_def)

lemma burstKeys_split: "burstKeys = ''x-h-car'' # tl burstKeys"
proof -
  have "[0..<99] = 0 # [1..<99]" by (simp add: upt_rec)
  then show ?thesis by (simp add: burstKeys_def)
qed

text \<open>
  C5. A service resolves one segment, then starts the next run as \<open>calculateRoute\<close> does,
  with \<open>clearSegmentCache\<close>. The next run resolves 99 other segments and then the first one
  again: the map holds 100 entries, the newest of them under the key \<open>1-2-car\<close>. The
  insertion that follows evicts that newest entry and keeps the oldest one, \<open>x-h-car\<close>:
  the order record still starts with the key \<open>1-2-car\<close> of the run before. A FIFO queue
  would have dropped \<open>x-h-car\<close>.
\<close>

theorem segment_cache_evicts_newest_after_clear:
  "let firstRun = run_segments offline [(stop ''1'' 48.8566 2.3522, stop ''2'' 48.8606 2.3376, car)] initialState;
       nextRun = clearSegmentCache firstRun;
       full = run_segments offline (burst @ [(stop ''1'' 48.8566 2.3522, stop ''2'' 48.8606 2.3376, car)]) nextRun;
       after = run_segments offline [(stop ''3'' 48.8584 2.2945, stop ''4'' 48.853 2.3499, car)] full
   in length (segmentCache full) = 100
      \<and> map fst (segmentCache full) = ''x-h-car'' # tl burstKeys @ [''1-2-car'']
      \<and> map fst (segmentCache after) = ''x-h-car'' # tl burstKeys @ [''3-4-car'']
      \<and> fifo_put 100 ''3-4-car'' (map fst (segmentCache full)) = tl burstKeys @ [''1-2-car'', ''3-4-car'']"
proof -
  let ?A = "(stop ''1'' 48.8566 2.3522, stop ''2'' 48.8606 2.3376, car)"
  let ?C = "(stop ''3'' 48.8584 2.2945, stop ''4'' 48.853 2.3499, car)"
  define firstRun where "firstRun = run_segments offline [?A] initialState"
  define nextRun where "nextRun = clearSegmentCache firstRun"
  define full where "full = run_segments offline (burst @ [?A]) nextRun"
  define after where "after = run_segments offline [?C] full"
  have kA: "generateSegmentKey (stop ''1'' 48.8566 2.3522) (stop ''2'' 48.8606 2.3376) car = ''1-2-car''"
    and kC: "generateSegmentKey (stop ''3'' 48.8584 2.2945) (stop ''4'' 48.853 2.3499) car = ''3-4-car''"
    by (simp_all add: segment_key_stop vehicle_string_def)
  have notA: "''1-2-car'' \<notin> set burstKeys" and notC: "''3-4-car'' \<notin> set burstKeys"
    using burstKeys_first by fastforce+
  have "segmentCacheOrder firstRun = segmentCacheOrder initialState @ map (\<lambda>(f, t, v). generateSegmentKey f t v) [?A]"
    unfolding firstRun_def
    by (rule run_segments_below[THEN conjunct2]) (simp_all add: stop_def)
  then have first: "segmentCacheOrder firstRun = [''1-2-car'']" by (simp add: segment_key_stop vehicle_string_def)
  have "next": "segmentCache nextRun = []" "segmentCacheOrder nextRun = [''1-2-car'']"
    by (simp_all add: nextRun_def clearSegmentCache_def first)
  have "map fst (segmentCache full)
           = map fst (segmentCache nextRun) @ map (\<lambda>(f, t, v). generateSegmentKey f t v) (burst @ [?A])
       \<and> segmentCacheOrder full
           = segmentCacheOrder nextRun @ map (\<lambda>(f, t, v). generateSegmentKey f t v) (burst @ [?A])"
    unfolding full_def
  proof (rule run_segments_below)
    show "\<forall>(f, t, v) \<in> set (burst @ [?A]). coordinates f \<noteq> None \<and> coordinates t \<noteq> None"
      using burst_coordinates by (auto simp: stop_def)
    show "distinct (map (\<lambda>(f, t, v). generateSegmentKey f t v) (burst @ [?A]))"
      using distinct_burstKeys notA by (simp add: burst_keys segment_key_stop vehicle_string_def)
    show "set (map (\<lambda>(f, t, v). generateSegmentKey f t v) (burst @ [?A])) \<inter> set (map fst (segmentCache nextRun)) = {}"
      by (simp add: "next")
    show "length (segmentCache nextRun) + length (burst @ [?A]) \<le> 100"
      by (simp add: "next" burst_def)
  qed
  then have full: "map fst (segmentCache full) = burstKeys @ [''1-2-car'']"
    "segmentCacheOrder full = ''1-2-car'' # burstKeys @ [''1-2-car'']"
    by (simp_all add: "next" burst_keys segment_key_stop vehicle_string_def)
  have len: "length (segmentCache full) = 100"
  proof -
    have "length (map fst (segmentCache full)) = 100"
      unfolding full(1) by (simp add: length_burstKeys)
    then show ?thesis by simp
  qed
  have dist: "distinct (map fst (segmentCache full))"
    using distinct_burstKeys notA by (simp add: full(1))
  have missC: "generateSegmentKey (stop ''3'' 48.8584 2.2945) (stop ''4'' 48.853 2.3499) car
                 \<notin> set (map fst (segmentCache full))"
    using notC unfolding kC full(1) by simp
  obtain seg s1 where s1:
    "snd (calculateSegment offline (stop ''3'' 48.8584 2.2945) (stop ''4'' 48.853 2.3499) car full)
       = cacheSegment ''3-4-car'' seg s1"
    "segmentCache s1 = segmentCache full" "segmentCacheOrder s1 = segmentCacheOrder full"
    using calculateSegment_miss[OF _ _ missC, of offline] unfolding kC by (auto simp: stop_def)
  have "map fst (segmentCache (cacheSegment ''3-4-car'' seg s1))
          = filter (\<lambda>x. x \<noteq> ''1-2-car'') (map fst (segmentCache s1)) @ [''3-4-car'']"
  proof (rule cacheSegment_stale_head)
    show "length (segmentCache s1) = 100" using len s1 by simp
    show "distinct (map fst (segmentCache s1))" using dist s1 by simp
    show "segmentCacheOrder s1 = ''1-2-car'' # burstKeys @ [''1-2-car'']" using full(2) s1 by simp
    show "''1-2-car'' \<noteq> []" by simp
    show "''1-2-car'' \<in> set (map fst (segmentCache s1))" unfolding s1(2) full(1) by simp
    show "''3-4-car'' \<notin> set (map fst (segmentCache s1))" using notC unfolding s1(2) full(1) by simp
  qed
  moreover have "filter (\<lambda>x. x \<noteq> ''1-2-car'') burstKeys = burstKeys"
    using notA by (auto simp: filter_id_conv)
  ultimately have after: "map fst (segmentCache after) = burstKeys @ [''3-4-car'']"
    unfolding after_def using s1(1) by (simp add: s1(2) full(1))
  have fifo: "fifo_put 100 ''3-4-car'' (map fst (segmentCache full)) = tl burstKeys @ [''1-2-car'', ''3-4-car'']"
    using length_burstKeys burstKeys_split
    by (simp add: fifo_put_def full(1)) (metis list.sel(3) tl_append2 list.distinct(1))
  have "length (segmentCache full) = 100
      \<and> map fst (segmentCache full) = ''x-h-car'' # tl burstKeys @ [''1-2-car'']
      \<and> map fst (segmentCache after) = ''x-h-car'' # tl burstKeys @ [''3-4-car'']
      \<and> fifo_put 100 ''3-4-car'' (map fst (segmentCache full)) = tl burstKeys @ [''1-2-car'', ''3-4-car'']"
    using len full(1) after fifo burstKeys_split by (metis append_Cons)
  then show ?thesis
    unfolding Let_def firstRun_def nextRun_def full_def after_def .
qed

subsection \<open>The fingerprint determines the request's fields\<close>

lemma bool_suffix:
  assumes "X @ ''_'' @ bool_string b1 = Y @ ''_'' @ bool_string b2"
  shows "b1 = b2 \<and> X = Y"
proof -
  from assms have "rev (X @ ''_'' @ bool_string b1) = rev (Y @ ''_'' @ bool_string b2)"
    by (rule arg_cong)
  then show ?thesis by (cases b1; cases b2) (simp_all add: bool_string_def)
qed

lemma method_suffix:
  assumes "X @ ''_'' @ method_string m1 = Y @ ''_'' @ method_string m2"
  shows "m1 = m2 \<and> X = Y"
proof -
  from assms have "rev (X @ ''_'' @ method_string m1) = rev (Y @ ''_'' @ method_string m2)"
    by (rule arg_cong)
  then show ?thesis by (cases m1; cases m2) (simp_all add: method_string_def)
qed

lemma vehicle_suffix:
  assumes "X @ ''_'' @ vehicle_string v1 = Y @ ''_'' @ vehicle_string v2"
  shows "v1 = v2 \<and> X = Y"
proof -
  from assms have "rev (X @ ''_'' @ vehicle_string v1) = rev (Y @ ''_'' @ vehicle_string v2)"
    by (rule arg_cong)
  then show ?thesis by (cases v1; cases v2) (simp_all add: vehicle_string_def)
qed

lemma route_key_parts:
  assumes "L1 @ ''_'' @ vehicle_string v1 @ ''_'' @ method_string m1 @ ''_'' @ bool_string b1 =
           L2 @ ''_'' @ vehicle_string v2 @ ''_'' @ method_string m2 @ ''_'' @ bool_string b2"
  shows "v1 = v2 \<and> m1 = m2 \<and> b1 = b2 \<and> L1 = L2"
proof -
  from assms have
    "(L1 @ ''_'' @ vehicle_string v1 @ ''_'' @ method_string m1) @ ''_'' @ bool_string b1 =
     (L2 @ ''_'' @ vehicle_string v2 @ ''_'' @ method_string m2) @ ''_'' @ bool_string b2"
    by simp
  from bool_suffix[OF this] have b: "b1 = b2" and
    1: "(L1 @ ''_'' @ vehicle_string v1) @ ''_'' @ method_string m1 =
        (L2 @ ''_'' @ vehicle_string v2) @ ''_'' @ method_string m2"
    by simp_all
  from method_suffix[OF 1] have m: "m1 = m2" and
    2: "L1 @ ''_'' @ vehicle_string v1 = L2 @ ''_'' @ vehicle_string v2"
    by simp_all
  from vehicle_suffix[OF 2] b m show ?thesis by simp
qed

lemma generateRouteKey_eqD:
  assumes "generateRouteKey r1 = generateRouteKey r2"
  shows "req_vehicleType r1 = req_vehicleType r2 \<and> req_optimizationMethod r1 = req_optimizationMethod r2
       \<and> req_isLoop r1 = req_isLoop r2
       \<and> join ''-'' (map location_key (req_locations r1)) = join ''-'' (map location_key (req_locations r2))"
  using route_key_parts[of "join ''-'' (map location_key (req_locations r1))" "req_vehicleType r1"
      "req_optimizationMethod r1" "req_isLoop r1" "join ''-'' (map location_key (req_locations r2))"
      "req_vehicleType r2" "req_optimizationMethod r2" "req_isLoop r2"] assms
  by (simp add: generateRouteKey_def Let_def)
subsection \<open>Shape of the fingerprint\<close>

lemma digit_char_digit: "d < 10 \<Longrightarrow> digit_char d \<in> set ''0123456789''"
proof -
  assume "d < 10"
  then have "d \<in> {0,1,2,3,4,5,6,7,8,9}" by auto
  then show ?thesis by (auto simp: digit_char_def)
qed

lemma nat_to_string_digits: "set (nat_to_string n) \<subseteq> set ''0123456789''"
proof (induction n rule: nat_to_string.induct)
  case (1 n)
  show ?case
  proof (cases "n < 10")
    case True
    then show ?thesis using digit_char_digit[of n] by (subst nat_to_string.simps) simp
  next
    case False
    have "n mod 10 < 10" by simp
    from digit_char_digit[OF this] 1[OF False] False show ?thesis
      by (subst nat_to_string.simps) simp
  qed
qed

lemma pad_zeros_digits: "set (pad_zeros k (nat_to_string n)) \<subseteq> set ''0123456789''"
proof -
  have "set (replicate (k - length (nat_to_string n)) (CHR ''0'')) \<subseteq> {CHR ''0''}" by auto
  then show ?thesis using nat_to_string_digits[of n] unfolding pad_zeros_def by auto
qed

lemma pad_zeros_length: "k \<le> length (pad_zeros k m)"
  by (simp add: pad_zeros_def)

lemma toFixed4_shape: "fixed4 (toFixed 4 x)"
proof -
  define m where "m = pad_zeros 5 (nat_to_string (nat \<lfloor>\<bar>x\<bar> * 10 ^ 4 + 1 / 2\<rfloor>))"
  define D where "D = set ''0123456789''"
  have dig: "set m \<subseteq> D" unfolding m_def D_def by (rule pad_zeros_digits)
  have len: "5 \<le> length m" unfolding m_def by (rule pad_zeros_length)
  define sgn where "sgn = (if x < 0 then ''-'' else [])"
  have tf0: "toFixed 4 x = (if x < 0 then ''-'' @ (take (length m - 4) m @ ''.'' @ drop (length m - 4) m)
                            else take (length m - 4) m @ ''.'' @ drop (length m - 4) m)"
    unfolding toFixed_def m_def Let_def by simp
  have tf: "toFixed 4 x = (sgn @ take (length m - 4) m) @ ''.'' @ drop (length m - 4) m"
    unfolding tf0 sgn_def by simp
  have tk: "set (take (length m - 4) m) \<subseteq> D"
    by (rule order_trans[OF set_take_subset dig])
  have dr: "set (drop (length m - 4) m) \<subseteq> D"
    by (rule order_trans[OF set_drop_subset dig])
  have dotD: "CHR ''.'' \<notin> D" unfolding D_def by simp
  have Dnum: "D \<subseteq> numchars" unfolding D_def numchars_def by auto
  have sg: "set sgn \<subseteq> numchars" "CHR ''.'' \<notin> set sgn" unfolding sgn_def numchars_def by auto
  have nodot: "CHR ''.'' \<notin> set (sgn @ take (length m - 4) m)"
    using tk dotD sg(2) by auto
  have l4: "length (drop (length m - 4) m) = 4" using len by simp
  have dotnum: "CHR ''.'' \<in> numchars" unfolding numchars_def by simp
  have chars: "set (toFixed 4 x) \<subseteq> numchars"
    unfolding tf using tk dr Dnum sg(1) dotnum by auto
  show ?thesis unfolding fixed4_def using tf nodot l4 chars by blast
qed

lemma split_at_char:
  assumes "a @ c # b = a' @ c # b'" "c \<notin> set a" "c \<notin> set a'"
  shows "a = a' \<and> b = b'"
  using assms
proof (induction a arbitrary: a')
  case Nil
  then show ?case by (cases a') auto
next
  case (Cons x a)
  then show ?case by (cases a') auto
qed

lemma fixed4_not_u: "fixed4 s \<Longrightarrow> \<exists>c t. s = c # t \<and> c \<noteq> CHR ''u'' \<and> c \<noteq> CHR ''_''"
proof -
  assume f: "fixed4 s"
  then obtain a b where s: "s = a @ ''.'' @ b" by (auto simp: fixed4_def)
  then have "s \<noteq> []" by simp
  then obtain c t where ct: "s = c # t" by (cases s) auto
  moreover have "c \<in> numchars" using f ct by (auto simp: fixed4_def)
  ultimately show ?thesis by (auto simp: numchars_def)
qed

lemma fixed4_prefix_free:
  assumes "fixed4 n" "fixed4 n'" "n @ r = n' @ r'"
  shows "n = n' \<and> r = r'"
proof -
  from assms obtain a b a' b' where
    n: "n = a @ ''.'' @ b" "CHR ''.'' \<notin> set a" "length b = 4" and
    n': "n' = a' @ ''.'' @ b'" "CHR ''.'' \<notin> set a'" "length b' = 4"
    by (auto simp: fixed4_def)
  from assms(3) have "a @ CHR ''.'' # (b @ r) = a' @ CHR ''.'' # (b' @ r')"
    by (simp add: n n')
  from split_at_char[OF this n(2) n'(2)] have "a = a'" "b @ r = b' @ r'" by auto
  with n n' show ?thesis by auto
qed

lemma numstr_prefix_free:
  assumes "numstr n" "numstr n'" "n @ r = n' @ r'"
  shows "n = n' \<and> r = r'"
proof -
  consider "n = ''undefined''" "n' = ''undefined''" | "n = ''undefined''" "fixed4 n'"
    | "fixed4 n" "n' = ''undefined''" | "fixed4 n" "fixed4 n'"
    using assms by (auto simp: numstr_def)
  then show ?thesis
  proof cases
    case 1 then show ?thesis using assms by simp
  next
    case 2 then show ?thesis using assms(3) fixed4_not_u[of n'] by auto
  next
    case 3 then show ?thesis using assms(3) fixed4_not_u[of n] by auto
  next
    case 4 then show ?thesis using assms(3) by (rule fixed4_prefix_free)
  qed
qed

lemma numstr_no_underscore: "numstr s \<Longrightarrow> CHR ''_'' \<notin> set s"
  by (auto simp: numstr_def fixed4_def numchars_def)

lemma location_key_shape:
  "\<exists>n1 n2. location_key loc = n1 @ ''_'' @ n2 \<and> numstr n1 \<and> numstr n2"
proof (cases "coordinates loc")
  case None
  have "location_key loc = ''undefined'' @ ''_'' @ ''undefined''" using None by (simp add: location_key_def)
  then show ?thesis unfolding numstr_def by blast
next
  case (Some c)
  have "location_key loc = toFixed 4 (latitude c) @ ''_'' @ toFixed 4 (longitude c)"
    using Some by (simp add: location_key_def)
  then show ?thesis unfolding numstr_def using toFixed4_shape by blast
qed

lemma location_key_prefix_free:
  assumes "location_key l1 @ r1 = location_key l2 @ r2"
  shows "location_key l1 = location_key l2 \<and> r1 = r2"
proof -
  obtain n1 n2 where k1: "location_key l1 = n1 @ ''_'' @ n2" "numstr n1" "numstr n2"
    using location_key_shape by blast
  obtain m1 m2 where k2: "location_key l2 = m1 @ ''_'' @ m2" "numstr m1" "numstr m2"
    using location_key_shape by blast
  from assms have "n1 @ CHR ''_'' # (n2 @ r1) = m1 @ CHR ''_'' # (m2 @ r2)"
    by (simp add: k1 k2)
  from split_at_char[OF this numstr_no_underscore[OF k1(2)] numstr_no_underscore[OF k2(2)]]
  have "n1 = m1" "n2 @ r1 = m2 @ r2" by auto
  with numstr_prefix_free[OF k1(3) k2(3)] k1 k2 show ?thesis by auto
qed

lemma location_key_nonempty: "location_key l \<noteq> []"
  using location_key_shape[of l] by auto

lemma join_Cons: "join sep (x # xs) = x @ (if xs = [] then [] else sep @ join sep xs)"
  by (cases xs) auto

lemma join_location_keys_inj:
  "join ''-'' (map location_key xs) = join ''-'' (map location_key ys)
   \<Longrightarrow> map location_key xs = map location_key ys"
proof (induction xs arbitrary: ys)
  case Nil
  then show ?case using location_key_nonempty by (cases ys) (auto simp: join_Cons)
next
  case (Cons x xs)
  show ?case
  proof (cases ys)
    case Nil
    then show ?thesis using Cons.prems location_key_nonempty by (auto simp: join_Cons)
  next
    case (Cons y ys')
    let ?r1 = "if map location_key xs = [] then [] else ''-'' @ join ''-'' (map location_key xs)"
    let ?r2 = "if map location_key ys' = [] then [] else ''-'' @ join ''-'' (map location_key ys')"
    from Cons.prems Cons have "location_key x @ ?r1 = location_key y @ ?r2"
      by (simp add: join_Cons)
    from location_key_prefix_free[OF this] have k: "location_key x = location_key y" and r: "?r1 = ?r2"
      by auto
    from r have "join ''-'' (map location_key xs) = join ''-'' (map location_key ys')"
      by (auto split: if_splits)
    from Cons.IH[OF this] k Cons show ?thesis by simp
  qed
qed

lemma generateRouteKey_eq_iff:
  "generateRouteKey r1 = generateRouteKey r2 \<longleftrightarrow>
     req_vehicleType r1 = req_vehicleType r2 \<and> req_optimizationMethod r1 = req_optimizationMethod r2
     \<and> req_isLoop r1 = req_isLoop r2
     \<and> map location_key (req_locations r1) = map location_key (req_locations r2)"
proof
  assume "generateRouteKey r1 = generateRouteKey r2"
  from generateRouteKey_eqD[OF this] join_location_keys_inj show
    "req_vehicleType r1 = req_vehicleType r2 \<and> req_optimizationMethod r1 = req_optimizationMethod r2
     \<and> req_isLoop r1 = req_isLoop r2
     \<and> map location_key (req_locations r1) = map location_key (req_locations r2)" by blast
next
  assume "req_vehicleType r1 = req_vehicleType r2 \<and> req_optimizationMethod r1 = req_optimizationMethod r2
     \<and> req_isLoop r1 = req_isLoop r2
     \<and> map location_key (req_locations r1) = map location_key (req_locations r2)"
  then show "generateRouteKey r1 = generateRouteKey r2"
    by (simp add: generateRouteKey_def)
qed
subsection \<open>Map operations\<close>

lemma Map_get_Map_set_same [simp]: "Map_get k (Map_set k v m) = Some v"
  by (induction m) (auto simp: Map_get_def)

lemma Map_get_Map_set_other [simp]: "k' \<noteq> k \<Longrightarrow> Map_get k' (Map_set k v m) = Map_get k' m"
  by (induction m) (auto simp: Map_get_def)

lemma Map_get_Map_delete: "Map_get k' (Map_delete k m) = (if k' = k then None else Map_get k' m)"
  by (induction m) (auto simp: Map_get_def Map_delete_def)

lemma keys_Map_set: "set (map fst (Map_set k v m)) = insert k (set (map fst m))"
  by (induction m) auto

lemma distinct_Map_set: "distinct (map fst m) \<Longrightarrow> distinct (map fst (Map_set k v m))"
  by (induction m) (auto simp: keys_Map_set[simplified])

lemma length_Map_set_present: "k \<in> set (map fst m) \<Longrightarrow> length (Map_set k v m) = length m"
  by (induction m) auto

lemma Map_set_absent: "k \<notin> set (map fst m) \<Longrightarrow> Map_set k v m = m @ [(k, v)]"
  by (induction m) auto

lemma Map_get_filter_None: "Map_get k m = None \<Longrightarrow> Map_get k (filter P m) = None"
  by (auto simp: Map_get_def map_of_eq_None_iff)

lemma Map_get_filter_Some:
  "distinct (map fst m) \<Longrightarrow> Map_get k m = Some v \<Longrightarrow> P (k, v) \<Longrightarrow> Map_get k (filter P m) = Some v"
proof (induction m)
  case Nil
  then show ?case by (simp add: Map_get_def)
next
  case (Cons p m)
  show ?case
  proof (cases "fst p = k")
    case True
    then show ?thesis using Cons.prems by (cases p) (auto simp: Map_get_def)
  next
    case False
    then have "Map_get k m = Some v" using Cons.prems by (cases p) (auto simp: Map_get_def)
    from Cons.IH[OF _ this Cons.prems(3)] Cons.prems(1) False show ?thesis
      by (cases p) (auto simp: Map_get_def)
  qed
qed

lemma distinct_filter_keys: "distinct (map fst m) \<Longrightarrow> distinct (map fst (filter P m))"
  by (simp add: distinct_map_filter)

subsection \<open>Storing and fetching a route\<close>

lemma length_foldr_insort: "length (foldr (insort_key f) c ys) = length c + length ys"
  by (induction c) simp_all

lemma hd_foldr_insort_last:
  assumes "c \<noteq> []" "\<forall>y \<in> set c. f y \<le> f x"
  shows "hd (foldr (insort_key f) c [x]) \<in> set c"
  using assms
proof (induction c)
  case Nil
  then show ?case by simp
next
  case (Cons y c)
  show ?case
  proof (cases "c = []")
    case True
    then show ?thesis using Cons.prems by simp
  next
    case False
    with Cons have ih: "hd (foldr (insort_key f) c [x]) \<in> set c" by simp
    have "length (foldr (insort_key f) c [x]) \<noteq> 0" by (simp add: length_foldr_insort)
    then have ne: "foldr (insort_key f) c [x] \<noteq> []" by (metis list.size(3))
    then obtain z zs where z: "foldr (insort_key f) c [x] = z # zs" by (cases "foldr (insort_key f) c [x]") auto
    with ih show ?thesis by simp
  qed
qed

lemma oldest_not_newest:
  assumes "c \<noteq> []" "\<forall>y \<in> set c. f y \<le> f x"
  shows "hd (sort_key f (c @ [x])) \<in> set c"
  using hd_foldr_insort_last[OF assms] by (simp add: sort_key_def)

lemma setCachedRoute_at_stored:
  assumes "route_cache_wf now cache"
  shows "Map_get (generateRouteKey request) (setCachedRoute_at now request r cache)
           = Some \<lparr>entry_route = r, timestamp = now\<rparr>"
    and "distinct (map fst (setCachedRoute_at now request r cache))"
proof -
  let ?K = "generateRouteKey request"
  let ?e = "\<lparr>entry_route = r, timestamp = now\<rparr>"
  let ?c1 = "Map_set ?K ?e cache"
  have d1: "distinct (map fst ?c1)" using assms by (simp add: route_cache_wf_def distinct_Map_set)
  have "Map_get ?K (setCachedRoute_at now request r cache) = Some ?e
      \<and> distinct (map fst (setCachedRoute_at now request r cache))"
  proof (cases "length ?c1 > 50")
    case False
    then show ?thesis using d1 by (simp add: setCachedRoute_at_def Let_def)
  next
    case True
    have absent: "?K \<notin> set (map fst cache)"
      using True assms length_Map_set_present[of ?K cache ?e] by (auto simp: route_cache_wf_def)
    then have c1: "?c1 = cache @ [(?K, ?e)]" by (rule Map_set_absent)
    have ne: "cache \<noteq> []" using True c1 by auto
    have "hd (sort_key (\<lambda>e. timestamp (snd e)) (cache @ [(?K, ?e)])) \<in> set cache"
      using assms by (intro oldest_not_newest ne) (auto simp: route_cache_wf_def)
    then have "fst (hd (sort_key (\<lambda>e. timestamp (snd e)) (cache @ [(?K, ?e)]))) \<in> set (map fst cache)"
      by simp
    then have "fst (hd (sort_key (\<lambda>e. timestamp (snd e)) ?c1)) \<noteq> ?K"
      using absent unfolding c1 by metis
    then have g: "Map_get ?K (setCachedRoute_at now request r cache) = Some ?e"
      using True by (simp add: setCachedRoute_at_def Let_def Map_get_Map_delete)
    have "distinct (map fst (setCachedRoute_at now request r cache))"
      using True d1 by (simp add: setCachedRoute_at_def Let_def Map_delete_def distinct_map_filter)
    with g show ?thesis by simp
  qed
  then show "Map_get ?K (setCachedRoute_at now request r cache) = Some ?e"
    and "distinct (map fst (setCachedRoute_at now request r cache))" by simp_all
qed

lemma setCachedRoute_at_other:
  assumes "generateRouteKey request' \<noteq> generateRouteKey request"
    "Map_get (generateRouteKey request') cache = None"
  shows "Map_get (generateRouteKey request') (setCachedRoute_at now request r cache) = None"
  using assms by (simp add: setCachedRoute_at_def Let_def Map_get_Map_delete)
lemma store_fetch_same_key:
  assumes wf: "route_cache_wf (date_now env (tick s)) (routeCache s)"
    and t1: "date_now env (Suc (tick s)) - date_now env (tick s) < ROUTE_CACHE_DURATION"
    and t2: "date_now env (Suc (Suc (tick s))) - date_now env (tick s) < ROUTE_CACHE_DURATION"
    and key: "generateRouteKey request' = generateRouteKey request"
  shows "fst (getCachedRoute env request' (setCachedRoute env request r s)) = Some r"
proof -
  let ?t0 = "date_now env (tick s)"
  let ?c1 = "setCachedRoute_at ?t0 request r (routeCache s)"
  let ?e = "\<lparr>entry_route = r, timestamp = ?t0\<rparr>"
  let ?P = "\<lambda>(key, value). \<not> (date_now env (Suc (tick s)) - timestamp value > ROUTE_CACHE_DURATION)"
  have g: "Map_get (generateRouteKey request) ?c1 = Some ?e"
    and d: "distinct (map fst ?c1)"
    using setCachedRoute_at_stored[OF wf] by simp_all
  have keep: "?P (generateRouteKey request, ?e)" using t1 by simp
  have "Map_get (generateRouteKey request) (filter ?P ?c1) = Some ?e"
    by (rule Map_get_filter_Some[where P = ?P, OF d g keep])
  then have "Map_get (generateRouteKey request) (cleanRouteCache_at (date_now env (Suc (tick s))) ?c1) = Some ?e"
    by (simp add: cleanRouteCache_at_def)
  then show ?thesis using t2
    by (simp add: getCachedRoute_def setCachedRoute_def cleanRouteCache_def advance_def Let_def
        lookupRoute_at_def key)
qed

lemma store_fetch_other_key:
  assumes "generateRouteKey request' \<noteq> generateRouteKey request"
    and "Map_get (generateRouteKey request') (routeCache s) = None"
  shows "fst (getCachedRoute env request' (setCachedRoute env request r s)) = None"
proof -
  let ?c1 = "setCachedRoute_at (date_now env (tick s)) request r (routeCache s)"
  have "Map_get (generateRouteKey request') ?c1 = None"
    by (rule setCachedRoute_at_other[OF assms])
  then have "Map_get (generateRouteKey request')
      (cleanRouteCache_at (date_now env (Suc (tick s))) ?c1) = None"
    unfolding cleanRouteCache_at_def by (rule Map_get_filter_None)
  then show ?thesis
    by (simp add: getCachedRoute_def setCachedRoute_def cleanRouteCache_def advance_def Let_def)
qed

lemma route_cache_wf_empty [simp]: "route_cache_wf t []"
  by (simp add: route_cache_wf_def)

lemma location_key_60: "location_key (stop ''1'' 48.8566 2.3522) = ''48.8566_2.3522''"
  by (simp add: location_key_def stop_def toFixed_eval)

lemma location_key_61: "location_key (stop ''1'' 48.85661 2.3522) = ''48.8566_2.3522''"
  by (simp add: location_key_def stop_def toFixed_eval)

lemma location_key_62: "location_key (stop ''1'' 48.85662 2.3522) = ''48.8566_2.3522''"
  by (simp add: location_key_def stop_def toFixed_eval)

text \<open>
  C6 (amended). On a route cache with one entry per key, at most 50 entries and no timestamp
  in the future, a route stored with \<open>setCachedRoute\<close> and fetched while both clock readings
  of the fetch are less than 30 minutes after the store is returned unchanged, for a fetch
  with the same request and for a fetch with any request of the same vehicle type, method
  and loop flag whose stops' coordinates \<open>toFixed(4)\<close> renders to the same strings, stop by
  stop. A fetch with a request that differs in vehicle type, in method, in the loop flag, or
  in the list of the stops' coordinates as \<open>toFixed(4)\<close> renders them, returns absent when no
  entry with that request's fingerprint was in the cache before.
\<close>

theorem route_cache_store_then_fetch:
  assumes "route_cache_wf (date_now env (tick s)) (routeCache s)"
    and "date_now env (Suc (tick s)) - date_now env (tick s) < ROUTE_CACHE_DURATION"
    and "date_now env (Suc (Suc (tick s))) - date_now env (tick s) < ROUTE_CACHE_DURATION"
  shows "fst (getCachedRoute env request (setCachedRoute env request r s)) = Some r
       \<and> (\<forall>request'.
            Map_get (generateRouteKey request') (routeCache s) = None \<and>
            (req_vehicleType request' \<noteq> req_vehicleType request
             \<or> req_optimizationMethod request' \<noteq> req_optimizationMethod request
             \<or> req_isLoop request' \<noteq> req_isLoop request
             \<or> map location_key (req_locations request') \<noteq> map location_key (req_locations request))
            \<longrightarrow> fst (getCachedRoute env request' (setCachedRoute env request r s)) = None)
       \<and> (\<forall>request'.
            req_vehicleType request' = req_vehicleType request
            \<and> req_optimizationMethod request' = req_optimizationMethod request
            \<and> req_isLoop request' = req_isLoop request
            \<and> map location_key (req_locations request') = map location_key (req_locations request)
            \<longrightarrow> fst (getCachedRoute env request' (setCachedRoute env request r s)) = Some r)"
proof (intro conjI allI impI)
  show "fst (getCachedRoute env request (setCachedRoute env request r s)) = Some r"
    by (rule store_fetch_same_key[OF assms refl])
next
  fix request'
  assume a: "Map_get (generateRouteKey request') (routeCache s) = None \<and>
            (req_vehicleType request' \<noteq> req_vehicleType request
             \<or> req_optimizationMethod request' \<noteq> req_optimizationMethod request
             \<or> req_isLoop request' \<noteq> req_isLoop request
             \<or> map location_key (req_locations request') \<noteq> map location_key (req_locations request))"
  then have "generateRouteKey request' \<noteq> generateRouteKey request"
    by (simp add: generateRouteKey_eq_iff)
  with a show "fst (getCachedRoute env request' (setCachedRoute env request r s)) = None"
    by (intro store_fetch_other_key) simp_all
next
  fix request' :: RouteOptimizationRequest
  assume "req_vehicleType request' = req_vehicleType request
            \<and> req_optimizationMethod request' = req_optimizationMethod request
            \<and> req_isLoop request' = req_isLoop request
            \<and> map location_key (req_locations request') = map location_key (req_locations request)"
  then have "generateRouteKey request' = generateRouteKey request"
    by (simp add: generateRouteKey_eq_iff)
  then show "fst (getCachedRoute env request' (setCachedRoute env request r s)) = Some r"
    by (rule store_fetch_same_key[OF assms])
qed

theorem route_cache_store_then_fetch_witness:
  "fst (getCachedRoute offline (mockRequest [stop ''1'' 48.8566 2.3522, stop ''2'' 48.8606 2.3376])
         (setCachedRoute offline (mockRequest [stop ''1'' 48.8566 2.3522, stop ''2'' 48.8606 2.3376])
            mockRoute initialState)) = Some mockRoute
   \<and> fst (getCachedRoute offline
           ((mockRequest [stop ''1'' 48.8566 2.3522, stop ''2'' 48.8606 2.3376])\<lparr>req_vehicleType := truck\<rparr>)
         (setCachedRoute offline (mockRequest [stop ''1'' 48.8566 2.3522, stop ''2'' 48.8606 2.3376])
            mockRoute initialState)) = None
   \<and> fst (getCachedRoute offline (mockRequest [stop ''1'' 48.85661 2.3522, stop ''2'' 48.8606 2.3376])
         (setCachedRoute offline (mockRequest [stop ''1'' 48.8566 2.3522, stop ''2'' 48.8606 2.3376])
            mockRoute initialState)) = Some mockRoute"
proof -
  let ?req = "mockRequest [stop ''1'' 48.8566 2.3522, stop ''2'' 48.8606 2.3376]"
  let ?near = "mockRequest [stop ''1'' 48.85661 2.3522, stop ''2'' 48.8606 2.3376]"
  let ?P = "\<lambda>q. fst (getCachedRoute offline q (setCachedRoute offline ?req mockRoute initialState))"
  have t: "?P ?req = Some mockRoute
       \<and> (\<forall>request'.
            Map_get (generateRouteKey request') (routeCache initialState) = None \<and>
            (req_vehicleType request' \<noteq> req_vehicleType ?req
             \<or> req_optimizationMethod request' \<noteq> req_optimizationMethod ?req
             \<or> req_isLoop request' \<noteq> req_isLoop ?req
             \<or> map location_key (req_locations request') \<noteq> map location_key (req_locations ?req))
            \<longrightarrow> ?P request' = None)
       \<and> (\<forall>request'.
            req_vehicleType request' = req_vehicleType ?req
            \<and> req_optimizationMethod request' = req_optimizationMethod ?req
            \<and> req_isLoop request' = req_isLoop ?req
            \<and> map location_key (req_locations request') = map location_key (req_locations ?req)
            \<longrightarrow> ?P request' = Some mockRoute)"
    by (rule route_cache_store_then_fetch) (simp_all add: ROUTE_CACHE_DURATION_def)
  have keys: "map location_key (req_locations ?near) = map location_key (req_locations ?req)"
    using location_key_60 location_key_61 by (simp add: mockRequest_def)
  have a: "?P ?req = Some mockRoute" using t by (rule conjunct1)
  have "?P (?req\<lparr>req_vehicleType := truck\<rparr>) = None"
    using t[THEN conjunct2, THEN conjunct1, rule_format, of "?req\<lparr>req_vehicleType := truck\<rparr>"]
    by (simp add: Map_get_def mockRequest_def)
  moreover have "?P ?near = Some mockRoute"
    using t[THEN conjunct2, THEN conjunct2, rule_format, of ?near] keys
    by (simp add: mockRequest_def)
  ultimately show ?thesis using a by simp
qed

text \<open>
  C6 as stated fails: two requests whose first stops differ in latitude (48.85661 against
  48.85662) have the same fingerprint, so the route stored for one is returned for the other.
\<close>

theorem route_cache_close_coordinates_hit:
  "req_locations (mockRequest [stop ''1'' 48.85662 2.3522, stop ''2'' 48.8606 2.3376])
     \<noteq> req_locations (mockRequest [stop ''1'' 48.85661 2.3522, stop ''2'' 48.8606 2.3376])
   \<and> fst (getCachedRoute offline (mockRequest [stop ''1'' 48.85662 2.3522, stop ''2'' 48.8606 2.3376])
         (setCachedRoute offline (mockRequest [stop ''1'' 48.85661 2.3522, stop ''2'' 48.8606 2.3376])
            mockRoute initialState)) = Some mockRoute"
proof
  show "req_locations (mockRequest [stop ''1'' 48.85662 2.3522, stop ''2'' 48.8606 2.3376])
     \<noteq> req_locations (mockRequest [stop ''1'' 48.85661 2.3522, stop ''2'' 48.8606 2.3376])"
    by (simp add: mockRequest_def stop_def)
next
  have k: "generateRouteKey (mockRequest [stop ''1'' 48.85662 2.3522, stop ''2'' 48.8606 2.3376])
      = generateRouteKey (mockRequest [stop ''1'' 48.85661 2.3522, stop ''2'' 48.8606 2.3376])"
  proof -
    have "map location_key [stop ''1'' 48.85662 2.3522, stop ''2'' 48.8606 2.3376]
        = map location_key [stop ''1'' 48.85661 2.3522, stop ''2'' 48.8606 2.3376]"
      by (simp only: list.map location_key_61 location_key_62)
    then show ?thesis by (simp add: generateRouteKey_eq_iff mockRequest_def)
  qed
  show "fst (getCachedRoute offline (mockRequest [stop ''1'' 48.85662 2.3522, stop ''2'' 48.8606 2.3376])
         (setCachedRoute offline (mockRequest [stop ''1'' 48.85661 2.3522, stop ''2'' 48.8606 2.3376])
            mockRoute initialState)) = Some mockRoute"
    by (rule store_fetch_same_key[OF _ _ _ k]) (simp_all add: ROUTE_CACHE_DURATION_def)
qed

subsection \<open>Distances between the poles and the equator, with the exact library\<close>

lemma twelfth_pos: "0 < twelfth"
  by (simp add: twelfth_def)


lemma central_quarter: "atan2 (sqrt 2 / 2) (sqrt 2 / 2) = pi / 4"
proof -
  have "sqrt 2 / 2 > (0::real)" by simp
  then have "atan2 (sqrt 2 / 2) (sqrt 2 / 2) = arctan 1" by (simp add: atan2_def)
  then show ?thesis by (simp add: arctan_one)
qed

lemma central_sixth: "atan2 (1 / 2) (sqrt 3 / 2) = pi / 6"
proof -
  have pos: "0 < sqrt 3 / 2" by simp
  have "atan2 (1 / 2) (sqrt 3 / 2) = arctan (1 / sqrt 3)" using pos by (simp add: atan2_def)
  also have "\<dots> = pi / 6"
    by (rule arctan_unique) (simp_all add: tan_30)
  finally show ?thesis .
qed

lemma central_half: "atan2 1 0 = pi / 2"
  by (simp add: atan2_def)

lemma haversine_values:
  "sqrt (1 / 2) = sqrt 2 / 2" "sqrt (1 / 4) = 1 / 2" "sqrt (3 / 4) = sqrt 3 / 2"
  "sin (pi / 4) * sin (pi / 4) = 1 / 2" "sin (pi / 6) * sin (pi / 6) = 1 / 4"
proof -
  show "sqrt (1 / 2) = sqrt 2 / 2" by (rule real_sqrt_unique) (simp_all add: power_divide)
  show "sqrt (1 / 4) = 1 / 2" by (simp add: real_sqrt_divide)
  show "sqrt (3 / 4) = sqrt 3 / 2" by (simp add: real_sqrt_divide)
  show "sin (pi / 4) * sin (pi / 4) = 1 / 2" by (simp add: sin_45)
  show "sin (pi / 6) * sin (pi / 6) = 1 / 4" by (simp add: sin_30)
qed

lemma term_pole_equator:
  "haversine exactMath \<lparr>latitude = 90, longitude = 0\<rparr> \<lparr>latitude = 0, longitude = lo\<rparr> = Num (1 / 2)"
  "haversine exactMath \<lparr>latitude = 0, longitude = lo\<rparr> \<lparr>latitude = 90, longitude = 0\<rparr> = Num (1 / 2)"
  "haversine exactMath \<lparr>latitude = - 90, longitude = 0\<rparr> \<lparr>latitude = 0, longitude = lo\<rparr> = Num (1 / 2)"
  "haversine exactMath \<lparr>latitude = 0, longitude = lo\<rparr> \<lparr>latitude = - 90, longitude = 0\<rparr> = Num (1 / 2)"
  by (simp_all add: haversine_def Let_def haversine_values)

lemma term_pole_pole:
  "haversine exactMath \<lparr>latitude = 90, longitude = 0\<rparr> \<lparr>latitude = - 90, longitude = 0\<rparr> = Num 1"
  "haversine exactMath \<lparr>latitude = - 90, longitude = 0\<rparr> \<lparr>latitude = 90, longitude = 0\<rparr> = Num 1"
  by (simp_all add: haversine_def Let_def)

lemma term_east_west:
  "haversine exactMath \<lparr>latitude = 0, longitude = 30\<rparr> \<lparr>latitude = 0, longitude = - 30\<rparr> = Num (1 / 4)"
  "haversine exactMath \<lparr>latitude = 0, longitude = - 30\<rparr> \<lparr>latitude = 0, longitude = 30\<rparr> = Num (1 / 4)"
  by (simp_all add: haversine_def Let_def haversine_values)

lemma dist_north_equator:
  "calculateDistance exactMath \<lparr>latitude = 90, longitude = 0\<rparr> \<lparr>latitude = 0, longitude = lo\<rparr> = Num (3 * twelfth)"
  "calculateDistance exactMath \<lparr>latitude = 0, longitude = lo\<rparr> \<lparr>latitude = 90, longitude = 0\<rparr> = Num (3 * twelfth)"
  by (simp_all add: calculateDistance_of_term[OF term_pole_equator(1)]
        calculateDistance_of_term[OF term_pole_equator(2)] haversine_values central_quarter twelfth_def)

lemma dist_south_equator:
  "calculateDistance exactMath \<lparr>latitude = - 90, longitude = 0\<rparr> \<lparr>latitude = 0, longitude = lo\<rparr> = Num (3 * twelfth)"
  "calculateDistance exactMath \<lparr>latitude = 0, longitude = lo\<rparr> \<lparr>latitude = - 90, longitude = 0\<rparr> = Num (3 * twelfth)"
  by (simp_all add: calculateDistance_of_term[OF term_pole_equator(3)]
        calculateDistance_of_term[OF term_pole_equator(4)] haversine_values central_quarter twelfth_def)

lemma dist_pole_pole:
  "calculateDistance exactMath \<lparr>latitude = 90, longitude = 0\<rparr> \<lparr>latitude = - 90, longitude = 0\<rparr> = Num (6 * twelfth)"
  "calculateDistance exactMath \<lparr>latitude = - 90, longitude = 0\<rparr> \<lparr>latitude = 90, longitude = 0\<rparr> = Num (6 * twelfth)"
  by (simp_all add: calculateDistance_of_term[OF term_pole_pole(1)]
        calculateDistance_of_term[OF term_pole_pole(2)] central_half twelfth_def)

lemma dist_east_west:
  "calculateDistance exactMath \<lparr>latitude = 0, longitude = 30\<rparr> \<lparr>latitude = 0, longitude = - 30\<rparr> = Num (2 * twelfth)"
  "calculateDistance exactMath \<lparr>latitude = 0, longitude = - 30\<rparr> \<lparr>latitude = 0, longitude = 30\<rparr> = Num (2 * twelfth)"
  by (simp_all add: calculateDistance_of_term[OF term_east_west(1)]
        calculateDistance_of_term[OF term_east_west(2)] haversine_values central_sixth twelfth_def)

lemma example_coordinates [simp]:
  "coordinates northPole = Some \<lparr>latitude = 90, longitude = 0\<rparr>"
  "coordinates east = Some \<lparr>latitude = 0, longitude = 30\<rparr>"
  "coordinates southPole = Some \<lparr>latitude = - 90, longitude = 0\<rparr>"
  "coordinates west = Some \<lparr>latitude = 0, longitude = - 30\<rparr>"
  "loc_id northPole = ''N''" "loc_id east = ''E''" "loc_id southPole = ''S''" "loc_id west = ''W''"
  by (simp_all add: northPole_def east_def southPole_def west_def stop_def)

lemmas example_distances = dist_north_equator dist_south_equator dist_pole_pole dist_east_west

subsection \<open>Geodesic fallback of the segment resolver\<close>

lemma haversine_same: "sin_of M 0 = 0 \<Longrightarrow> haversine M c c = Num 0"
  by (simp add: haversine_def Let_def)





lemma calculateDistance_zero:
  assumes "haversine M c1 c2 = Num 0" "atan2_of M 0 1 = 0"
  shows "calculateDistance M c1 c2 = Num 0"
  using assms(2) by (simp add: calculateDistance_of_term[OF assms(1)])




subsection \<open>Sequencer with every stop locked\<close>

lemma filter_unlocked_empty: "\<forall>l \<in> set locs. locked l \<Longrightarrow> filter (\<lambda>loc. \<not> locked loc) locs = []"
  by (induction locs) auto

text \<open>
  C7 (amended). With more than two stops, all locked, the sequencer returns the input
  sorted stably in ascending order of the position index, a missing index counting as 0;
  with at most two stops it returns the input unchanged, sorted or not.
\<close>

theorem optimizeLocationOrder_all_locked:
  assumes "\<forall>l \<in> set locs. locked l"
  shows "optimizeLocationOrder env locs method loop v s =
           Some (if length locs \<le> 2 then locs else sort_key order_or_zero locs, s)"
  using filter_unlocked_empty[OF assms]
  by (simp add: optimizeLocationOrder_def Let_def)

theorem optimizeLocationOrder_all_locked_witness:
  "optimizeLocationOrder offline
     [lockedStop ''a'' 48.85 2.35 2, lockedStop ''b'' 48.86 2.33 0, lockedStop ''c'' 48.87 2.34 1]
     balanced False car initialState
   = Some ([lockedStop ''b'' 48.86 2.33 0, lockedStop ''c'' 48.87 2.34 1, lockedStop ''a'' 48.85 2.35 2],
           initialState)"
  using optimizeLocationOrder_all_locked[of
      "[lockedStop ''a'' 48.85 2.35 2, lockedStop ''b'' 48.86 2.33 0, lockedStop ''c'' 48.87 2.34 1]"
      offline balanced False car initialState]
  by (simp add: locked_def lockedStop_def stop_def order_or_zero_def)

text \<open>
  C7 as stated fails: two locked stops given in the order of positions 1, 0 come back in
  that order, which is not the order of their position indices.
\<close>

theorem optimizeLocationOrder_two_locked_unsorted:
  "locked (lockedStop ''a'' 48.85 2.35 1) \<and> locked (lockedStop ''b'' 48.86 2.33 0)
   \<and> optimizeLocationOrder offline [lockedStop ''a'' 48.85 2.35 1, lockedStop ''b'' 48.86 2.33 0]
        balanced False car initialState
      = Some ([lockedStop ''a'' 48.85 2.35 1, lockedStop ''b'' 48.86 2.33 0], initialState)
   \<and> sort_key order_or_zero [lockedStop ''a'' 48.85 2.35 1, lockedStop ''b'' 48.86 2.33 0]
      = [lockedStop ''b'' 48.86 2.33 0, lockedStop ''a'' 48.85 2.35 1]
   \<and> [lockedStop ''a'' 48.85 2.35 1, lockedStop ''b'' 48.86 2.33 0]
      \<noteq> [lockedStop ''b'' 48.86 2.33 0, lockedStop ''a'' 48.85 2.35 1]"
  by (simp add: optimizeLocationOrder_def locked_def lockedStop_def stop_def order_or_zero_def)

subsection \<open>Standard nearest-neighbour ordering\<close>




lemma distances_definedD:
  assumes "distances_defined M locs" "a \<in> set locs" "b \<in> set locs"
    and "coordinates a = Some ca" "coordinates b = Some cb"
  shows "calculateDistance M ca cb \<noteq> NaN"
proof -
  have "\<forall>a \<in> set locs. \<forall>b \<in> set locs.
      (case (coordinates a, coordinates b) of
         (Some ca, Some cb) \<Rightarrow> calculateDistance M ca cb \<noteq> NaN | _ \<Rightarrow> True)"
    using assms(1) by (simp add: distances_defined_def list_all_iff)
  then have "case (coordinates a, coordinates b) of
         (Some ca, Some cb) \<Rightarrow> calculateDistance M ca cb \<noteq> NaN | _ \<Rightarrow> True"
    using assms(2,3) by blast
  then show ?thesis using assms(4,5) by simp
qed

















subsection \<open>The loop-aware optimisation on the four example stops\<close>

lemma upt_small: "[0..<3] = [0, 1, 2]" "[0..<4] = [0, 1, 2, 3]" "[0..<2] = [0, 1]"
  by (simp_all add: upt_rec)

lemma loop_scores:
  "calculateCompleteLoopScore exactMath [northPole, east, southPole, west] shortest_distance = Num (12 * twelfth)"
  "calculateCompleteLoopScore exactMath [northPole, east, west, southPole] shortest_distance = Num (14 * twelfth)"
  "calculateCompleteLoopScore exactMath [northPole, southPole, east, west] shortest_distance = Num (14 * twelfth)"
  "calculateCompleteLoopScore exactMath [northPole, west, east, southPole] shortest_distance = Num (14 * twelfth)"
  by (simp_all add: calculateCompleteLoopScore_def upt_small loop_edge_score_def example_distances)

lemma nearest_first_example:
  "findNearestNeighborLoop exactMath northPole [east, southPole, west] shortest_distance
     = Some [northPole, east, west, southPole]"
  using twelfth_pos
  by (simp add: findNearestNeighborLoop_def greedy_loop.simps nearest_loop_score_def
      loop_edge_score_def below_best_def splice_out_def example_distances Let_def)

lemma farthest_first_example:
  "findFarthestFirstLoop exactMath northPole [east, southPole, west]
     = Some [northPole, southPole, east, west]"
  using twelfth_pos
  by (simp add: findFarthestFirstLoop_def greedy_loop.simps return_score_def
      below_best_def splice_out_def example_distances Let_def)

lemma second_place_examples:
  "optimizeFromSecondLocation exactMath [northPole, east, southPole, west] = Some [northPole, east, west, southPole]"
  "optimizeFromSecondLocation exactMath [northPole, southPole, east, west] = Some [northPole, southPole, east, west]"
  "optimizeFromSecondLocation exactMath [northPole, west, east, southPole] = Some [northPole, west, east, southPole]"
  using twelfth_pos
  by (simp_all add: optimizeFromSecondLocation_def greedy_loop.simps return_score_def
      below_best_def splice_out_def example_distances Let_def)

lemma loopAware_example:
  "loopAwareOptimization exactMath [northPole, east, southPole, west] shortest_distance
     = Some [northPole, east, west, southPole]"
  using twelfth_pos
  by (simp add: loopAwareOptimization_def nearest_first_example farthest_first_example
      second_place_examples loop_scores keep_better_def below_best_def upt_small splice_out_def)

text \<open>
  C8 as stated fails. The four stops form a convex quadrilateral and the input order goes
  round it (score 12 twelfths of the circumference). Every strategy that is tried crosses
  it (score 14), so the chosen order scores more than the unoptimised input order.
\<close>

theorem loopAware_worse_than_input:
  "loopAwareOptimization exactMath [northPole, east, southPole, west] shortest_distance
     = Some [northPole, east, west, southPole]
   \<and> num_lt (calculateCompleteLoopScore exactMath [northPole, east, southPole, west] shortest_distance)
        (calculateCompleteLoopScore exactMath [northPole, east, west, southPole] shortest_distance)"
  using twelfth_pos by (simp add: loopAware_example loop_scores)

subsection \<open>The greedy loops of the loop strategies\<close>

lemma scan_remaining_keeps_Some: "best \<noteq> None \<Longrightarrow> scan_remaining sc ls i best \<noteq> None"
  by (induction ls arbitrary: i best) (auto split: option.splits)

lemma scan_remaining_finds:
  "\<exists>l \<in> set ls. \<exists>x. sc l = Some (Num x) \<Longrightarrow> scan_remaining sc ls i best \<noteq> None"
proof (induction ls arbitrary: i best)
  case Nil
  then show ?case by simp
next
  case (Cons a ls)
  show ?case
  proof (cases "best = None")
    case False
    then show ?thesis by (rule scan_remaining_keeps_Some)
  next
    case True
    show ?thesis
    proof (cases "\<exists>x. sc a = Some (Num x)")
      case False
      then have "\<exists>l \<in> set ls. \<exists>x. sc l = Some (Num x)" using Cons.prems by auto
      then have "scan_remaining sc ls (Suc i) best \<noteq> None" by (rule Cons.IH)
      moreover have "sc a = None \<or> sc a = Some NaN"
        using False by (cases "sc a") (auto intro: number.exhaust)
      ultimately show ?thesis using True by (auto simp: below_best_def)
    next
      case True
      then obtain x where "sc a = Some (Num x)" by blast
      then show ?thesis using \<open>best = None\<close>
        by (simp add: below_best_def scan_remaining_keeps_Some)
    qed
  qed
qed

lemma scan_remaining_Some:
  "scan_remaining sc ls i0 best = Some (l, s, i) \<Longrightarrow>
     best = Some (l, s, i) \<or> (\<exists>k < length ls. i = i0 + k \<and> ls ! k = l)"
proof (induction ls arbitrary: i0 best)
  case Nil
  then show ?case by simp
next
  case (Cons a ls)
  have step: "\<exists>k < length (a # ls). i = i0 + k \<and> (a # ls) ! k = l"
    if "\<exists>k < length ls. i = Suc i0 + k \<and> ls ! k = l"
  proof -
    from that obtain k where "k < length ls" "i = Suc i0 + k" "ls ! k = l" by auto
    then have "Suc k < length (a # ls) \<and> i = i0 + Suc k \<and> (a # ls) ! Suc k = l" by simp
    then show ?thesis by blast
  qed
  have here: "\<exists>k < length (a # ls). i0 = i0 + k \<and> (a # ls) ! k = a"
    by (intro exI[of _ 0]) simp
  show ?case
  proof (cases "sc a")
    case None
    with Cons.prems have "scan_remaining sc ls (Suc i0) best = Some (l, s, i)" by simp
    from Cons.IH[OF this] step show ?thesis by blast
  next
    case (Some t)
    show ?thesis
    proof (cases "below_best t (map_option (\<lambda>b. fst (snd b)) best)")
      case True
      with Some Cons.prems have "scan_remaining sc ls (Suc i0) (Some (a, t, i0)) = Some (l, s, i)"
        by simp
      from Cons.IH[OF this] step here show ?thesis by auto
    next
      case False
      with Some Cons.prems have "scan_remaining sc ls (Suc i0) best = Some (l, s, i)" by simp
      from Cons.IH[OF this] step show ?thesis by blast
    qed
  qed
qed

lemma mset_splice_out: "i < length xs \<Longrightarrow> mset (splice_out i xs) + {#xs ! i#} = mset xs"
proof -
  assume "i < length xs"
  then have "xs = take i xs @ xs ! i # drop (Suc i) xs" by (rule id_take_nth_drop)
  then have "mset xs = mset (take i xs @ xs ! i # drop (Suc i) xs)" by simp
  then show ?thesis by (simp add: splice_out_def)
qed

lemma length_splice_out: "i < length xs \<Longrightarrow> length (splice_out i xs) < length xs"
  by (simp add: splice_out_def)

lemma set_splice_out: "set (splice_out i xs) \<subseteq> set xs"
  using set_take_subset[of i xs] set_drop_subset[of "Suc i" xs] by (auto simp: splice_out_def)

lemma greedy_loop_returns:
  assumes sound: "\<And>c n l. c \<in> A \<Longrightarrow> l \<in> A \<Longrightarrow> \<exists>x. score c n l = Some (Num x)"
  shows "set remaining \<subseteq> A \<Longrightarrow> current \<in> A
     \<Longrightarrow> \<exists>r. greedy_loop score result remaining current = Some r
             \<and> mset r = mset result + mset remaining \<and> take (length result) r = result"
proof (induction "length remaining" arbitrary: remaining result current rule: less_induct)
  case less
  show ?case
  proof (cases "remaining = []")
    case True
    have "greedy_loop score result [] current = Some result"
      by (subst greedy_loop.simps) simp
    then show ?thesis using True by simp
  next
    case False
    then obtain x where x: "x \<in> set remaining" by (cases remaining) auto
    then have cx: "x \<in> A" using less.prems(1) by blast
    have "\<exists>y. score current (length remaining) x = Some (Num y)"
      by (rule sound[OF less.prems(2) cx])
    with x have "\<exists>l \<in> set remaining. \<exists>y. score current (length remaining) l = Some (Num y)" ..
    then have "scan_remaining (score current (length remaining)) remaining 0 None \<noteq> None"
      by (rule scan_remaining_finds)
    then obtain nearest s i where sc:
      "scan_remaining (score current (length remaining)) remaining 0 None = Some (nearest, s, i)"
      by (cases "scan_remaining (score current (length remaining)) remaining 0 None") auto
    from scan_remaining_Some[OF sc] have i: "i < length remaining" "remaining ! i = nearest" by auto
    then have n: "nearest \<in> set remaining" by auto
    have c: "set (splice_out i remaining) \<subseteq> A"
      using less.prems(1) set_splice_out[of i remaining] by auto
    have cn: "nearest \<in> A" using n less.prems(1) by blast
    have "\<exists>r. greedy_loop score (result @ [nearest]) (splice_out i remaining) nearest = Some r
             \<and> mset r = mset (result @ [nearest]) + mset (splice_out i remaining)
             \<and> take (length (result @ [nearest])) r = result @ [nearest]"
      by (rule less.hyps[OF length_splice_out[OF i(1)] c cn])
    then obtain r where r: "greedy_loop score (result @ [nearest]) (splice_out i remaining) nearest = Some r"
      "mset r = mset (result @ [nearest]) + mset (splice_out i remaining)"
      "take (length (result @ [nearest])) r = result @ [nearest]" by blast
    have e: "mset (splice_out i remaining) + {#nearest#} = mset remaining"
      using mset_splice_out[OF i(1)] i(2) by simp
    have "mset r = mset result + (mset (splice_out i remaining) + {#nearest#})"
      unfolding r(2) by simp
    then have m: "mset r = mset result + mset remaining"
      by (simp only: e)
    have "take (length result) r = take (length result) (take (length (result @ [nearest])) r)"
      by (simp add: min_def)
    then have t: "take (length result) r = result" unfolding r(3) by simp
    have "greedy_loop score result remaining current =
        (case scan_remaining (score current (length remaining)) remaining 0 None of
           None \<Rightarrow> greedy_loop score result remaining current
         | Some (nearest, bestScore, bestIndex) \<Rightarrow>
             greedy_loop score (result @ [nearest]) (splice_out bestIndex remaining) nearest)"
      using False by (subst greedy_loop.simps) simp
    then have "greedy_loop score result remaining current = Some r"
      unfolding sc using r(1) by simp
    with m t show ?thesis by blast
  qed
qed

lemma estimateSpeed_values: "estimateSpeed d = Num 65 \<or> estimateSpeed d = Num 55 \<or> estimateSpeed d = Num 40"
  by (simp add: estimateSpeed_def)

lemma not_NaN_ex: "x \<noteq> NaN \<Longrightarrow> \<exists>t. x = Num t"
  by (cases x) auto

lemma travel_time_defined: "\<exists>t. num_mul (num_div (Num d) (estimateSpeed (Num d))) (Num 60) = Num t"
  by (rule not_NaN_ex) (simp add: estimateSpeed_def)

lemma loop_edge_score_defined: "\<exists>x. loop_edge_score m (Num d) = Num x"
proof (cases m)
  case shortest_distance
  then show ?thesis by (simp add: loop_edge_score_def)
next
  case fastest_time
  then show ?thesis using travel_time_defined[of d] by (simp add: loop_edge_score_def Let_def)
next
  case balanced
  obtain t where "num_mul (num_div (Num d) (estimateSpeed (Num d))) (Num 60) = Num t"
    using travel_time_defined by blast
  then show ?thesis using balanced by (simp add: loop_edge_score_def Let_def)
qed

lemma distance_Num:
  assumes "distances_defined M locs" "a \<in> set locs" "b \<in> set locs"
    and "coordinates a = Some ca" "coordinates b = Some cb"
  shows "\<exists>d. calculateDistance M ca cb = Num d"
  using distances_definedD[OF assms] by (cases "calculateDistance M ca cb") auto

lemma nearest_loop_score_sound:
  assumes "distances_defined M locs" "\<forall>l \<in> set locs. coordinates l \<noteq> None"
    and "start \<in> set locs" "c \<in> set locs" "l \<in> set locs"
  shows "\<exists>x. nearest_loop_score M m start c n l = Some (Num x)"
proof -
  obtain cs cc cl where co: "coordinates start = Some cs" "coordinates c = Some cc" "coordinates l = Some cl"
    using assms(2-5) by (metis not_None_eq)
  obtain d where d: "calculateDistance M cc cl = Num d"
    using distance_Num[OF assms(1,4,5) co(2,3)] by blast
  obtain e where e: "calculateDistance M cl cs = Num e"
    using distance_Num[OF assms(1,5,3) co(3,1)] by blast
  obtain td where td: "num_mul (num_div (Num d) (estimateSpeed (Num d))) (Num 60) = Num td"
    using travel_time_defined by blast
  obtain te where te: "num_mul (num_div (Num e) (estimateSpeed (Num e))) (Num 60) = Num te"
    using travel_time_defined by blast
  obtain x where x: "loop_edge_score m (Num d) = Num x" using loop_edge_score_defined by blast
  show ?thesis
  proof (cases "n = 1")
    case True
    then show ?thesis
      by (cases m) (simp_all add: nearest_loop_score_def Let_def co d e td te)
  next
    case False
    then show ?thesis
      by (simp add: nearest_loop_score_def Let_def co d x)
  qed
qed

lemma return_score_sound:
  assumes "distances_defined M locs" "\<forall>l \<in> set locs. coordinates l \<noteq> None"
    and "start \<in> set locs" "c \<in> set locs" "l \<in> set locs"
  shows "\<exists>x. return_score M start c n l = Some (Num x)"
proof -
  obtain cs cc cl where co: "coordinates start = Some cs" "coordinates c = Some cc" "coordinates l = Some cl"
    using assms(2-5) by (metis not_None_eq)
  obtain d where d: "calculateDistance M cc cl = Num d"
    using distance_Num[OF assms(1,4,5) co(2,3)] by blast
  obtain e where e: "calculateDistance M cl cs = Num e"
    using distance_Num[OF assms(1,5,3) co(3,1)] by blast
  show ?thesis by (simp add: return_score_def Let_def co d e)
qed

lemma findNearestNeighborLoop_returns:
  assumes "\<forall>l \<in> set (start # others). coordinates l \<noteq> None"
    and "distances_defined M (start # others)"
  shows "\<exists>r. findNearestNeighborLoop M start others m = Some r \<and> mset r = mset (start # others)
           \<and> hd r = start"
proof -
  have sound: "\<And>c n l. c \<in> set (start # others) \<Longrightarrow> l \<in> set (start # others) \<Longrightarrow>
      \<exists>x. nearest_loop_score M m start c n l = Some (Num x)"
    by (rule nearest_loop_score_sound[OF assms(2,1)]) simp_all
  have "\<exists>r. greedy_loop (nearest_loop_score M m start) [start] others start = Some r
             \<and> mset r = mset [start] + mset others \<and> take (length [start]) r = [start]"
    by (rule greedy_loop_returns[where A = "set (start # others)", OF sound]) auto
  then obtain r where r: "greedy_loop (nearest_loop_score M m start) [start] others start = Some r"
    "mset r = mset [start] + mset others" "take (length [start]) r = [start]" by blast
  from r(3) have "hd r = start" by (cases r) auto
  with r show ?thesis by (simp add: findNearestNeighborLoop_def)
qed

lemma farthest_scan_in:
  "fst (farthest_scan M start ls best) = Some f \<Longrightarrow> fst best = Some f \<or> f \<in> set ls"
proof (induction ls arbitrary: best)
  case Nil
  then show ?case by simp
next
  case (Cons a ls)
  obtain fa md where b: "best = (fa, md)" by (cases best)
  have "farthest_scan M start (a # ls) best = farthest_scan M start ls best
      \<or> (\<exists>d. farthest_scan M start (a # ls) best = farthest_scan M start ls (Some a, d))"
    unfolding b by (auto simp: Let_def split: option.splits)
  then show ?case
  proof
    assume "farthest_scan M start (a # ls) best = farthest_scan M start ls best"
    with Cons.prems have "fst (farthest_scan M start ls best) = Some f" by simp
    from Cons.IH[OF this] show ?thesis by auto
  next
    assume "\<exists>d. farthest_scan M start (a # ls) best = farthest_scan M start ls (Some a, d)"
    then obtain d where "farthest_scan M start (a # ls) best = farthest_scan M start ls (Some a, d)" ..
    with Cons.prems have "fst (farthest_scan M start ls (Some a, d)) = Some f" by simp
    from Cons.IH[OF this] show ?thesis by auto
  qed
qed

lemma findFarthestFirstLoop_returns:
  assumes "\<forall>l \<in> set (start # others). coordinates l \<noteq> None"
    and "distances_defined M (start # others)"
  shows "\<exists>r. findFarthestFirstLoop M start others = Some r \<and> set r \<subseteq> set (start # others)
           \<and> hd r = start
           \<and> (distinct (map loc_id others) \<longrightarrow> mset r = mset (start # others))"
proof (cases "fst (farthest_scan M start others (None, Num 0))")
  case None
  then show ?thesis by (simp add: findFarthestFirstLoop_def)
next
  case (Some farthest)
  from farthest_scan_in[OF Some] have f: "farthest \<in> set others" by simp
  let ?rem = "filter (\<lambda>loc. loc_id loc \<noteq> loc_id farthest) others"
  have sound: "\<And>c n l. c \<in> set (start # others) \<Longrightarrow> l \<in> set (start # others) \<Longrightarrow>
      \<exists>x. return_score M start c n l = Some (Num x)"
    by (rule return_score_sound[OF assms(2,1)]) simp_all
  have "\<exists>r. greedy_loop (return_score M start) [start, farthest] ?rem farthest = Some r
             \<and> mset r = mset [start, farthest] + mset ?rem
             \<and> take (length [start, farthest]) r = [start, farthest]"
    using f by (intro greedy_loop_returns[where A = "set (start # others)", OF sound]) auto
  then obtain r where r: "greedy_loop (return_score M start) [start, farthest] ?rem farthest = Some r"
    "mset r = mset [start, farthest] + mset ?rem" "take (length [start, farthest]) r = [start, farthest]"
    by blast
  have res: "findFarthestFirstLoop M start others = Some r"
    using Some r(1) by (simp add: findFarthestFirstLoop_def Let_def)
  have "set_mset (mset r) \<subseteq> set (start # others)" unfolding r(2) using f by auto
  then have sub: "set r \<subseteq> set (start # others)" by simp
  have hd: "hd r = start" using r(3) by (cases r) auto
  have "mset r = mset (start # others)" if d: "distinct (map loc_id others)"
  proof -
    have inj: "inj_on loc_id (set others)" and dist: "distinct others"
      using d by (simp_all add: distinct_map)
    have "?rem = filter (\<lambda>loc. loc \<noteq> farthest) others"
      using inj f by (intro filter_cong) (auto dest: inj_onD)
    also have "\<dots> = removeAll farthest others" by (simp add: removeAll_filter_not_eq eq_commute)
    also have "\<dots> = remove1 farthest others" using dist by (simp add: distinct_remove1_removeAll)
    finally have "mset ?rem = mset others - {#farthest#}" by simp
    then have "mset ?rem + {#farthest#} = mset others" using f by simp
    then show ?thesis unfolding r(2) by (simp add: ac_simps)
  qed
  with res sub hd show ?thesis by blast
qed

lemma optimizeFromSecondLocation_returns:
  assumes "\<forall>l \<in> set locs. coordinates l \<noteq> None" "distances_defined M locs"
    and "set ord \<subseteq> set locs" "ord \<noteq> []"
  shows "\<exists>r. optimizeFromSecondLocation M ord = Some r \<and> mset r = mset ord \<and> take 2 r = take 2 ord"
proof (cases "length ord \<le> 2")
  case True
  then show ?thesis by (simp add: optimizeFromSecondLocation_def)
next
  case False
  have "ord ! 0 \<in> set ord" using assms(4) by simp
  then have s0: "ord ! 0 \<in> set locs" using assms(3) by blast
  have sound: "\<And>c n l. c \<in> set locs \<Longrightarrow> l \<in> set locs \<Longrightarrow>
      \<exists>x. return_score M (ord ! 0) c n l = Some (Num x)"
    by (rule return_score_sound[OF assms(2,1) s0])
  have "take 2 ord ! 1 \<in> set ord" using False by (simp add: nth_mem)
  then have c: "set (drop 2 ord) \<subseteq> set locs" "take 2 ord ! 1 \<in> set locs"
    using assms(3) by (auto dest: in_set_dropD)
  have "\<exists>r. greedy_loop (return_score M (ord ! 0)) (take 2 ord) (drop 2 ord) (take 2 ord ! 1) = Some r
             \<and> mset r = mset (take 2 ord) + mset (drop 2 ord)
             \<and> take (length (take 2 ord)) r = take 2 ord"
    by (rule greedy_loop_returns[where A = "set locs", OF sound c])
  then obtain r where r: "greedy_loop (return_score M (ord ! 0)) (take 2 ord) (drop 2 ord) (take 2 ord ! 1) = Some r"
    "mset r = mset (take 2 ord) + mset (drop 2 ord)" "take (length (take 2 ord)) r = take 2 ord"
    by blast
  have "mset (take 2 ord) + mset (drop 2 ord) = mset ord"
    by (metis append_take_drop_id mset_append)
  moreover have "length (take 2 ord) = 2" using False by simp
  ultimately show ?thesis using False r
    by (simp add: optimizeFromSecondLocation_def Let_def)
qed

subsection \<open>The winner of the loop-aware optimisation\<close>

lemma foldl_invariant:
  assumes "P a" "\<And>a x. P a \<Longrightarrow> x \<in> set xs \<Longrightarrow> P (f a x)"
  shows "P (foldl f a xs)"
  using assms by (induction xs arbitrary: a) simp_all

lemma calculateCompleteLoopScore_defined:
  assumes "distances_defined M locs" "set t \<subseteq> set locs"
  shows "\<exists>x. calculateCompleteLoopScore M t m = Num x"
  unfolding calculateCompleteLoopScore_def
proof (rule foldl_invariant[where P = "\<lambda>a. \<exists>x. a = Num x"])
  show "\<exists>x. Num 0 = Num x" by simp
next
  fix a i
  assume a: "\<exists>x. a = Num x" and i: "i \<in> set [0..<length t]"
  then obtain x where x: "a = Num x" by blast
  let ?f = "t ! i" and ?t = "if i = length t - 1 then t ! 0 else t ! (i + 1)"
  have f: "?f \<in> set locs" using i assms(2) by auto
  have "0 < length t" using i by auto
  then have "t ! 0 \<in> set t" by (rule nth_mem)
  then have "?t \<in> set t" using i by (cases "i = length t - 1") auto
  then have t: "?t \<in> set locs" using assms(2) by blast
  show "\<exists>x. (let from = t ! i; to = if i = length t - 1 then t ! 0 else t ! (i + 1)
              in case (coordinates from, coordinates to) of
                   (Some cf, Some ct) \<Rightarrow> num_add a (loop_edge_score m (calculateDistance M cf ct))
                 | _ \<Rightarrow> a) = Num x"
  proof (cases "coordinates ?f")
    case None
    then show ?thesis using x by (simp add: Let_def)
  next
    case (Some cf)
    show ?thesis
    proof (cases "coordinates ?t")
      case None
      then show ?thesis using x Some by (simp add: Let_def)
    next
      case (Some ct)
      obtain d where d: "calculateDistance M cf ct = Num d"
        using distance_Num[OF assms(1) f t \<open>coordinates ?f = Some cf\<close> Some] by blast
      obtain e where e: "loop_edge_score m (Num d) = Num e" using loop_edge_score_defined by blast
      show ?thesis using x \<open>coordinates ?f = Some cf\<close> Some d e by (simp add: Let_def)
    qed
  qed
qed

lemma keep_better_bound:
  assumes "s \<noteq> NaN" "snd best \<noteq> Some NaN"
  shows "\<exists>b'. snd (keep_better best cand s) = Some b' \<and> b' \<noteq> NaN \<and> num_le b' s
           \<and> (\<forall>b. snd best = Some b \<longrightarrow> num_le b' b)"
proof (cases "snd best")
  case None
  then show ?thesis using assms(1) by (simp add: keep_better_def below_best_def num_le_refl)
next
  case (Some b)
  then have b: "b \<noteq> NaN" using assms(2) by auto
  show ?thesis
  proof (cases "num_lt s b")
    case True
    then show ?thesis using Some assms(1)
      by (simp add: keep_better_def below_best_def num_le_refl num_lt_le)
  next
    case False
    then show ?thesis using Some assms(1) b
      by (simp add: keep_better_def below_best_def num_le_refl not_num_lt)
  qed
qed

lemma keep_better_scored:
  assumes "snd best = None \<or> snd best = Some (calculateCompleteLoopScore M (fst best) m)"
  shows "snd (keep_better best cand (calculateCompleteLoopScore M cand m))
           = Some (calculateCompleteLoopScore M (fst (keep_better best cand (calculateCompleteLoopScore M cand m))) m)
         \<or> (snd best = None \<and> calculateCompleteLoopScore M cand m = NaN)"
  using assms by (auto simp: keep_better_def below_best_def)

lemma keep_better_set:
  "set (fst best) \<subseteq> A \<Longrightarrow> set cand \<subseteq> A \<Longrightarrow> set (fst (keep_better best cand s)) \<subseteq> A"
  by (simp add: keep_better_def)

lemma try_second_min:
  assumes co: "\<forall>l \<in> set (start # others). coordinates l \<noteq> None"
    and dd: "distances_defined M (start # others)"
  shows "\<forall>i \<in> set idxs. i < length others \<Longrightarrow>
     snd best = Some (calculateCompleteLoopScore M (fst best) m) \<Longrightarrow>
     set (fst best) \<subseteq> set (start # others) \<Longrightarrow>
     \<exists>best'. try_second M start others m idxs best = Some best'
       \<and> num_le (calculateCompleteLoopScore M (fst best') m) (calculateCompleteLoopScore M (fst best) m)
       \<and> (\<forall>i \<in> set idxs. \<exists>t. optimizeFromSecondLocation M ([start, others ! i] @ splice_out i others) = Some t
             \<and> num_le (calculateCompleteLoopScore M (fst best') m) (calculateCompleteLoopScore M t m))"
proof (induction idxs arbitrary: best)
  case Nil
  obtain x where "calculateCompleteLoopScore M (fst best) m = Num x"
    using calculateCompleteLoopScore_defined[OF dd Nil.prems(3)] by blast
  then show ?case by simp
next
  case (Cons i idxs)
  let ?S = "\<lambda>x. calculateCompleteLoopScore M x m"
  let ?test = "[start, others ! i] @ splice_out i others"
  have i: "i < length others" using Cons.prems(1) by simp
  then have "others ! i \<in> set others" by simp
  then have sub: "set ?test \<subseteq> set (start # others)"
    using set_splice_out[of i others] by auto
  from optimizeFromSecondLocation_returns[OF co dd sub]
  obtain t where t: "optimizeFromSecondLocation M ?test = Some t" "mset t = mset ?test" by auto
  have "set_mset (mset t) = set_mset (mset ?test)" using t(2) by simp
  then have tsub: "set t \<subseteq> set (start # others)" using sub by simp
  obtain st where st: "?S t = Num st"
    using calculateCompleteLoopScore_defined[OF dd tsub] by blast
  obtain sb where sb: "?S (fst best) = Num sb"
    using calculateCompleteLoopScore_defined[OF dd Cons.prems(3)] by blast
  let ?b1 = "keep_better best t (?S t)"
  have sc1: "snd ?b1 = Some (?S (fst ?b1))"
    using keep_better_scored[of best M m t] Cons.prems(2) st by auto
  have sub1: "set (fst ?b1) \<subseteq> set (start # others)"
    using Cons.prems(3) tsub by (rule keep_better_set)
  have "\<exists>b'. snd ?b1 = Some b' \<and> b' \<noteq> NaN \<and> num_le b' (?S t)
           \<and> (\<forall>b. snd best = Some b \<longrightarrow> num_le b' b)"
    using st sb Cons.prems(2) by (intro keep_better_bound) simp_all
  then have b1: "num_le (?S (fst ?b1)) (?S t)" "num_le (?S (fst ?b1)) (?S (fst best))"
    using sc1 Cons.prems(2) by auto
  have "\<forall>i \<in> set idxs. i < length others" using Cons.prems(1) by simp
  from Cons.IH[OF this sc1 sub1]
  obtain best' where r: "try_second M start others m idxs ?b1 = Some best'"
    "num_le (?S (fst best')) (?S (fst ?b1))"
    "\<forall>i \<in> set idxs. \<exists>t. optimizeFromSecondLocation M ([start, others ! i] @ splice_out i others) = Some t
        \<and> num_le (?S (fst best')) (?S t)"
    by blast
  have "try_second M start others m (i # idxs) best = Some best'"
    using t(1) r(1) by (simp add: Let_def)
  moreover have "num_le (?S (fst best')) (?S (fst best))" using r(2) b1(2) by (rule num_le_trans)
  moreover have "num_le (?S (fst best')) (?S t)" using r(2) b1(1) by (rule num_le_trans)
  ultimately show ?case using r(3) t(1) by auto
qed

text \<open>
  C8 (amended). For every list of stops that all have coordinates and between which every
  computed distance is a number (four stops forming a convex quadrilateral among them),
  the loop-aware optimisation returns an order whose complete-loop score is less than or
  equal to the complete-loop score of every tour it evaluates: nearest-first,
  farthest-first, and the alternate-second tour of each of the first three other stops.
  The unoptimised input order is not one of them.
\<close>

theorem loopAware_best_of_strategies:
  assumes "\<forall>l \<in> set (start # others). coordinates l \<noteq> None"
    and "distances_defined M (start # others)"
  shows "\<exists>best nearestFirst farthestFirst.
           loopAwareOptimization M (start # others) m = Some best
         \<and> findNearestNeighborLoop M start others m = Some nearestFirst
         \<and> findFarthestFirstLoop M start others = Some farthestFirst
         \<and> num_le (calculateCompleteLoopScore M best m) (calculateCompleteLoopScore M nearestFirst m)
         \<and> num_le (calculateCompleteLoopScore M best m) (calculateCompleteLoopScore M farthestFirst m)
         \<and> (\<forall>i < min (length others) 3.
              \<exists>t. optimizeFromSecondLocation M ([start, others ! i] @ splice_out i others) = Some t
                \<and> num_le (calculateCompleteLoopScore M best m) (calculateCompleteLoopScore M t m))"
proof -
  let ?S = "\<lambda>x. calculateCompleteLoopScore M x m"
  let ?A = "set (start # others)"
  from findNearestNeighborLoop_returns[OF assms, of m]
  obtain nf where nf: "findNearestNeighborLoop M start others m = Some nf" "mset nf = mset (start # others)"
    by blast
  from findFarthestFirstLoop_returns[OF assms]
  obtain ff where ff: "findFarthestFirstLoop M start others = Some ff" "set ff \<subseteq> ?A" by blast
  have "set_mset (mset nf) = set_mset (mset (start # others))" using nf(2) by simp
  then have nfsub: "set nf \<subseteq> ?A" by simp
  obtain sn where sn: "?S nf = Num sn"
    using calculateCompleteLoopScore_defined[OF assms(2) nfsub] by blast
  obtain sf where sf: "?S ff = Num sf"
    using calculateCompleteLoopScore_defined[OF assms(2) ff(2)] by blast
  let ?b1 = "keep_better (start # others, None) nf (?S nf)"
  have b1: "?b1 = (nf, Some (?S nf))" by (simp add: keep_better_def below_best_def sn)
  let ?b2 = "keep_better ?b1 ff (?S ff)"
  have sc2: "snd ?b2 = Some (?S (fst ?b2))"
    using keep_better_scored[of ?b1 M m ff] by (auto simp: b1)
  have sub2: "set (fst ?b2) \<subseteq> ?A"
    using nfsub ff(2) by (intro keep_better_set) (simp_all add: b1)
  have nb1: "snd ?b1 \<noteq> Some NaN" unfolding b1 by (simp add: sn)
  have nsf: "?S ff \<noteq> NaN" by (simp add: sf)
  have "\<exists>b'. snd ?b2 = Some b' \<and> b' \<noteq> NaN \<and> num_le b' (?S ff)
           \<and> (\<forall>b. snd ?b1 = Some b \<longrightarrow> num_le b' b)"
    by (rule keep_better_bound[OF nsf nb1])
  then have b2: "num_le (?S (fst ?b2)) (?S ff)" "num_le (?S (fst ?b2)) (?S nf)"
    using sc2 by (auto simp: b1)
  have idx: "\<forall>i \<in> set [0..<min (length others) 3]. i < length others" by simp
  from try_second_min[OF assms idx sc2 sub2]
  obtain best' where r: "try_second M start others m [0..<min (length others) 3] ?b2 = Some best'"
    "num_le (?S (fst best')) (?S (fst ?b2))"
    "\<forall>i \<in> set [0..<min (length others) 3].
        \<exists>t. optimizeFromSecondLocation M ([start, others ! i] @ splice_out i others) = Some t
          \<and> num_le (?S (fst best')) (?S t)"
    by blast
  have res: "loopAwareOptimization M (start # others) m = Some (fst best')"
    using nf(1) ff(1) r(1) by (simp add: loopAwareOptimization_def Let_def)
  have "num_le (?S (fst best')) (?S nf)" "num_le (?S (fst best')) (?S ff)"
    using r(2) b2 by (blast intro: num_le_trans)+
  moreover have "\<forall>i < min (length others) 3.
        \<exists>t. optimizeFromSecondLocation M ([start, others ! i] @ splice_out i others) = Some t
          \<and> num_le (?S (fst best')) (?S t)"
    using r(3) by simp
  ultimately show ?thesis using res nf(1) ff(1) by blast
qed

lemma quadrilateral_distances_defined:
  "distances_defined exactMath [northPole, east, southPole, west]"
  by (simp add: distances_defined_def example_distances calculateDistance_zero haversine_same atan2_def)

theorem loopAware_best_of_strategies_witness:
  "\<exists>best. loopAwareOptimization exactMath [northPole, east, southPole, west] shortest_distance = Some best
     \<and> num_le (calculateCompleteLoopScore exactMath best shortest_distance)
         (calculateCompleteLoopScore exactMath [northPole, east, west, southPole] shortest_distance)
     \<and> num_le (calculateCompleteLoopScore exactMath best shortest_distance)
         (calculateCompleteLoopScore exactMath [northPole, southPole, east, west] shortest_distance)"
  using loopAware_best_of_strategies[of northPole "[east, southPole, west]" exactMath shortest_distance]
    quadrilateral_distances_defined
  by (simp add: nearest_first_example farthest_first_example) blast


end
